theory Spec2Isabelle
  imports Main "HOL-Library.Word" "HOL-Library.Multiset"
begin

section \<open>Bloom gateway client: data model\<close>

text \<open>
  The client of \<^verbatim>\<open>pkg/bloomgateway/client.go\<close> partitions the blocks of one call by
  owning gateway address, sends one filter request per address and merges the answers.

  A chunk reference (\<^verbatim>\<open>logproto.ShortRef\<close>) is declared outside the available
  source. Its only operations used by the client are \<^verbatim>\<open>Equal\<close>, \<^verbatim>\<open>Less\<close> and
  \<^verbatim>\<open>Cmp\<close>; the data model describes it as an opaque, totally ordered value with
  equality and strict-less comparison. It is therefore a type parameter \<open>'r\<close> of class
  \<open>linorder\<close> throughout.
\<close>

definition Equal :: "'r::linorder \<Rightarrow> 'r \<Rightarrow> bool" where
  \<comment> \<open>Modelled from the spec: \<^verbatim>\<open>ShortRef.Equal\<close> (pkg/logproto, not in the available
      source); equality of the opaque chunk reference value.\<close>
  "Equal a b = (a = b)"

definition Less :: "'r::linorder \<Rightarrow> 'r \<Rightarrow> bool" where
  \<comment> \<open>Modelled from the spec: \<^verbatim>\<open>ShortRef.Less\<close> (pkg/logproto, not in the available
      source); the strict total order of chunk references.\<close>
  "Less a b = (a < b)"

definition Cmp :: "'r::linorder \<Rightarrow> 'r \<Rightarrow> int" where
  \<comment> \<open>Modelled from the spec: \<^verbatim>\<open>ShortRef.Cmp\<close> (pkg/logproto, not in the available
      source); the three-way comparison of the same order.\<close>
  "Cmp a b = (if a < b then - 1 else if a = b then 0 else 1)"

text \<open>\<^verbatim>\<open>logproto.GroupedChunkRefs\<close>: the fields the client reads and writes.\<close>

record 'r GroupedChunkRefs =
  Fingerprint :: "64 word"
  Tenant :: string
  Refs :: "'r list"

section \<open>mergeChunkSets\<close>

text \<open>
  The loop of \<^verbatim>\<open>mergeChunkSets\<close> (client.go, lines 338 to 357) with its three variables
  \<open>i\<close>, \<open>j\<close> and \<open>result\<close>. Both reads are in range under the loop condition.
\<close>

function mergeChunkSets_loop ::
  "'r::linorder list \<Rightarrow> 'r list \<Rightarrow> nat \<Rightarrow> nat \<Rightarrow> 'r list \<Rightarrow> nat \<times> nat \<times> 'r list" where
  "mergeChunkSets_loop s1 s2 i j result =
     (if i < length s1 \<and> j < length s2 then
        (if Equal (s1 ! i) (s2 ! j) then
           mergeChunkSets_loop s1 s2 (i + 1) (j + 1) (result @ [s1 ! i])
         else if Less (s1 ! i) (s2 ! j) then
           mergeChunkSets_loop s1 s2 (i + 1) j (result @ [s1 ! i])
         else
           mergeChunkSets_loop s1 s2 i (j + 1) (result @ [s2 ! j]))
      else (i, j, result))"
  by pat_completeness auto
termination
  by (relation "measure (\<lambda>(s1, s2, i, j, result). (length s1 - i) + (length s2 - j))") auto

declare mergeChunkSets_loop.simps [simp del]

text \<open>The two appends after the loop (lines 359 to 364).\<close>

definition mergeChunkSets_rest :: "'r list \<Rightarrow> 'r list \<Rightarrow> nat \<times> nat \<times> 'r list \<Rightarrow> 'r list" where
  "mergeChunkSets_rest s1 s2 st =
     (case st of (i, j, result) \<Rightarrow>
        (let result = (if i < length s1 then result @ drop i s1 else result);
             result = (if j < length s2 then result @ drop j s2 else result)
         in result))"

definition mergeChunkSets :: "'r::linorder list \<Rightarrow> 'r list \<Rightarrow> 'r list" where
  "mergeChunkSets s1 s2 = mergeChunkSets_rest s1 s2 (mergeChunkSets_loop s1 s2 0 0 [])"

section \<open>mergeSeries\<close>

text \<open>Errors are values; \<^verbatim>\<open>errors.Wrapf\<close> keeps its cause and adds a message.\<close>

datatype error = Error string | Wrapf error string

text \<open>
  \<^verbatim>\<open>sort.Slice\<close> by ascending Fingerprint (lines 247 and 300). Go does not promise a
  stable sort; the model is the stable insertion sort, which leaves a list that is
  already ascending as it is. No property below depends on the order among entries of
  equal Fingerprint.
\<close>

definition sortSlice :: "'r GroupedChunkRefs list \<Rightarrow> 'r GroupedChunkRefs list" where
  "sortSlice inp = sort_key Fingerprint inp"

text \<open>
  \<^verbatim>\<open>slices.IsSortedFunc\<close> and \<^verbatim>\<open>slices.SortFunc\<close> with \<^verbatim>\<open>ShortRef.Cmp\<close> as the
  comparison (lines 317 to 322): no element is smaller than its predecessor, and the
  ascending rearrangement.
\<close>

fun IsSortedFunc :: "('a \<Rightarrow> 'a \<Rightarrow> int) \<Rightarrow> 'a list \<Rightarrow> bool" where
  "IsSortedFunc cmp (a # b # xs) = (\<not> cmp b a < 0 \<and> IsSortedFunc cmp (b # xs))"
| "IsSortedFunc cmp xs = True"

definition SortFunc :: "'r::linorder list \<Rightarrow> 'r list" where
  "SortFunc xs = sort xs"

text \<open>
  The iterators of package \<^verbatim>\<open>v1\<close> (pkg/storage/bloom/v1) are not in the available
  source. An iterator over a slice is modelled by the list of the items it still has
  to yield.
\<close>

fun heapPop :: "('a \<Rightarrow> 'a \<Rightarrow> bool) \<Rightarrow> 'a list list \<Rightarrow> ('a \<times> 'a list list) option" where
  \<comment> \<open>Modelled from the spec: one step of \<^verbatim>\<open>v1.HeapIterator\<close>: among the sources that
      still have an item, take the item that is least under the comparison \<open>lt\<close> and advance that
      source. Among equal items the earliest source is taken.\<close>
  "heapPop lt [] = None"
| "heapPop lt ([] # its) = heapPop lt its"
| "heapPop lt ((x # rest) # its) =
     (case heapPop lt its of
        None \<Rightarrow> Some (x, [rest])
      | Some (y, its') \<Rightarrow>
          if lt y x then Some (y, (x # rest) # its') else Some (x, rest # its))"

function HeapIterator :: "('a \<Rightarrow> 'a \<Rightarrow> bool) \<Rightarrow> 'a list list \<Rightarrow> 'a list" where
  \<comment> \<open>Modelled from the spec: \<^verbatim>\<open>v1.NewHeapIterator\<close>, the k-way merge of the sources
      into one ascending stream; items of equal key come out one after the other and
      are not merged.\<close>
  "HeapIterator lt its =
     (case heapPop lt its of
        None \<Rightarrow> []
      | Some (x, its') \<Rightarrow> x # HeapIterator lt its')"
  by pat_completeness auto
termination
proof (relation "measure (\<lambda>(lt, its). sum_list (map length its))")
  show "wf (measure (\<lambda>(lt, its). sum_list (map length its)))"
    by simp
next
  fix lt :: "'a \<Rightarrow> 'a \<Rightarrow> bool" and its :: "'a list list" and p x its'
  assume pop: "heapPop lt its = Some p" and p: "(x, its') = p"
  have "heapPop lt its = Some (x, its') \<Longrightarrow>
        Suc (sum_list (map length its')) = sum_list (map length its)" for x its'
  proof (induction lt its arbitrary: x its' rule: heapPop.induct)
    case (3 lt y rest its)
    show ?case
    proof (cases "heapPop lt its")
      case None
      have "heapPop lt its = None \<Longrightarrow> sum_list (map length its) = 0"
        by (induction lt its rule: heapPop.induct) (auto split: option.splits if_splits)
      with None "3.prems" show ?thesis by auto
    next
      case (Some q)
      with "3.prems" "3.IH" show ?thesis
        by (cases q) (auto split: if_splits)
    qed
  qed simp_all
  with pop p show "((lt, its'), (lt, its)) \<in> measure (\<lambda>(lt, its). sum_list (map length its))"
    by auto
qed

declare HeapIterator.simps [simp del]

fun DedupeIter_run ::
  "('a \<Rightarrow> 'b \<Rightarrow> bool) \<Rightarrow> ('a \<Rightarrow> 'b) \<Rightarrow> ('a \<Rightarrow> 'b \<Rightarrow> 'b) \<Rightarrow> 'b \<Rightarrow> 'a list \<Rightarrow> 'b list" where
  \<comment> \<open>Modelled from the spec: the scan of \<^verbatim>\<open>v1.DedupeIter\<close> with the entry \<open>tmp\<close> under
      construction: while the next item of the stream is \<open>eq\<close> to it, the item is
      merged into it; otherwise \<open>tmp\<close> is emitted and the next item starts a new entry.\<close>
  "DedupeIter_run eq frm mrg tmp [] = [tmp]"
| "DedupeIter_run eq frm mrg tmp (x # xs) =
     (if eq x tmp then DedupeIter_run eq frm mrg (mrg x tmp) xs
      else tmp # DedupeIter_run eq frm mrg (frm x) xs)"

definition DedupingIter ::
  "('a \<Rightarrow> 'b \<Rightarrow> bool) \<Rightarrow> ('a \<Rightarrow> 'b) \<Rightarrow> ('a \<Rightarrow> 'b \<Rightarrow> 'b) \<Rightarrow> 'a list \<Rightarrow> 'b list" where
  \<comment> \<open>Modelled from the spec: \<^verbatim>\<open>v1.NewDedupingIter\<close>, the deduplication stage over the
      merged stream; consecutive items that are \<open>eq\<close> are combined pairwise.\<close>
  "DedupingIter eq frm mrg itr =
     (case itr of [] \<Rightarrow> [] | x # xs \<Rightarrow> DedupeIter_run eq frm mrg (frm x) xs)"

definition Identity :: "'a \<Rightarrow> 'a" where
  \<comment> \<open>Modelled from the spec: \<^verbatim>\<open>v1.Identity\<close>, the conversion that changes nothing.\<close>
  "Identity x = x"

definition CollectInto :: "'a list \<Rightarrow> 'a list \<Rightarrow> error + 'a list" where
  \<comment> \<open>Modelled from the spec: \<^verbatim>\<open>v1.CollectInto\<close>, which appends every item of the
      iterator to the emptied buffer; an iterator over slices in memory has no error
      to report.\<close>
  "CollectInto itr into = Inr (take 0 into @ itr)"

text \<open>The three closures handed to the iterators (lines 305, 311 and 315 to 328).\<close>

definition lessFingerprint :: "'r GroupedChunkRefs \<Rightarrow> 'r GroupedChunkRefs \<Rightarrow> bool" where
  "lessFingerprint a b = (Fingerprint a < Fingerprint b)"

definition eqFingerprint :: "'r GroupedChunkRefs \<Rightarrow> 'r GroupedChunkRefs \<Rightarrow> bool" where
  "eqFingerprint a b = (Fingerprint a = Fingerprint b)"

definition mergeGroups ::
  "'r::linorder GroupedChunkRefs \<Rightarrow> 'r GroupedChunkRefs \<Rightarrow> 'r GroupedChunkRefs" where
  "mergeGroups a b =
     (let aRefs = (if \<not> IsSortedFunc Cmp (Refs a) then SortFunc (Refs a) else Refs a);
          bRefs = (if \<not> IsSortedFunc Cmp (Refs b) then SortFunc (Refs b) else Refs b)
      in \<lparr>Fingerprint = Fingerprint a, Tenant = Tenant a, Refs = mergeChunkSets aRefs bRefs\<rparr>)"

definition mergeSeries ::
  "'r::linorder GroupedChunkRefs list list \<Rightarrow> 'r GroupedChunkRefs list
     \<Rightarrow> error + 'r GroupedChunkRefs list" where
  "mergeSeries input buf =
     (let buf = take 0 buf;
          iters = map sortSlice input;
          heapIter = HeapIterator lessFingerprint iters;
          dedupeIter = DedupingIter eqFingerprint Identity mergeGroups heapIter
      in CollectInto dedupeIter buf)"

section \<open>FilterChunks\<close>

text \<open>
  The records of one call. A block reference is used only through \<^verbatim>\<open>String()\<close>, so a
  block is the string it renders to. The interval bounds are 64-bit timestamps that the
  client passes on unchanged; the query plan is opaque (type parameter \<open>'p\<close>). Slices
  are values here: the model does not follow the sharing of backing arrays between the
  caller's slices and \<^verbatim>\<open>servers[idx].groups\<close>.
\<close>

record Interval =
  Start :: "64 word"
  End :: "64 word"

record 'r blockWithSeries =
  block :: string
  series :: "'r GroupedChunkRefs list"

record 'r addrWithGroups =
  addr :: string
  blocks :: "string list"
  groups :: "'r GroupedChunkRefs list"

text \<open>\<^verbatim>\<open>logproto.FilterChunkRefRequest\<close> as built at lines 252 to 258.\<close>

record ('r, 'p) FilterChunkRefRequest =
  req_From :: "64 word"
  req_Through :: "64 word"
  req_Refs :: "'r GroupedChunkRefs list"
  req_Blocks :: "string list"
  req_Plan :: 'p

text \<open>
  The collaborators of the client, none of them in the available source, are parameters
  of the model: the lookup of the owning address (\<^verbatim>\<open>c.pool.Addr\<close>), the lookup of a
  client for an address (\<^verbatim>\<open>c.pool.GetClientFor\<close>) and the remote call itself
  (\<^verbatim>\<open>client.FilterChunkRefs\<close>). Each either fails with an error or returns a value.
  \<open>'c\<close> is the type of client handles.
\<close>

record ('r, 'p, 'c) GatewayClient =
  pool_Addr :: "string \<Rightarrow> error + string"
  pool_GetClientFor :: "string \<Rightarrow> error + 'c"
  client_FilterChunkRefs ::
    "'c \<Rightarrow> ('r, 'p) FilterChunkRefRequest \<Rightarrow> error + 'r GroupedChunkRefs list"

text \<open>
  What the call does besides returning: every lookup, every remote call with the request
  it carries, every error log line and every increment of the request counter is
  recorded, in order.
\<close>

datatype outcome = typeSuccess | typeError

datatype ('r, 'p, 'c) event =
    AddrCall string
  | GetClientForCall string
  | FilterChunkRefsCall 'c "('r, 'p) FilterChunkRefRequest"
  | LogError string
  | ClientRequestsInc outcome

text \<open>
  The partitioning loop (lines 212 to 240) with its map \<open>pos\<close> from address to index
  and the slice \<open>servers\<close>. An index stored in \<open>pos\<close> is the length of \<open>servers\<close> at
  the time, so \<open>servers ! idx\<close> is in range. The two variables \<^verbatim>\<open>firstFp\<close> and
  \<^verbatim>\<open>lastFp\<close> (lines 211 and 221 to 227) are written and never read, and
  \<^verbatim>\<open>getFirstLast\<close> is not in the available source; they are left out.
  Slices are lists here. That is what the call computes when the series slices of the
  blocks have backing arrays of their own (lemma \<open>FilterChunks_mem_separate\<close>); the
  section on backing arrays models the call for slices that may share one.
\<close>

fun partitionLoop ::
  "('r, 'p, 'c) GatewayClient \<Rightarrow> 'r blockWithSeries list \<Rightarrow> (string \<rightharpoonup> nat)
     \<Rightarrow> 'r addrWithGroups list \<Rightarrow> ('r, 'p, 'c) event list
     \<Rightarrow> ('r, 'p, 'c) event list \<times> (error + 'r addrWithGroups list)" where
  "partitionLoop c [] pos servers tr = (tr, Inr servers)"
| "partitionLoop c (b # bs) pos servers tr =
     (case pool_Addr c (block b) of
        Inl err \<Rightarrow>
          (tr @ [AddrCall (block b)],
           Inl (Wrapf err (''server address for block: '' @ block b)))
      | Inr a \<Rightarrow>
          (case pos a of
             Some idx \<Rightarrow>
               partitionLoop c bs pos
                 (servers[idx := (servers ! idx)
                    \<lparr>groups := groups (servers ! idx) @ series b,
                     blocks := blocks (servers ! idx) @ [block b]\<rparr>])
                 (tr @ [AddrCall (block b)])
           | None \<Rightarrow>
               partitionLoop c bs (pos(a \<mapsto> length servers))
                 (servers @ [\<lparr>addr = a, blocks = [block b], groups = series b\<rparr>])
                 (tr @ [AddrCall (block b)])))"

text \<open>
  The state the concurrent jobs share: the result slots, the counter of result entries,
  and the record of effects.
\<close>

record ('r, 'p, 'c) fanout =
  trace :: "('r, 'p, 'c) event list"
  results :: "'r GroupedChunkRefs list list"
  count :: int

text \<open>
  \<^verbatim>\<open>doForAddrs\<close> (lines 372 to 390). The callback may change the shared state and
  returns an error or nothing; \<open>err\<close> is the variable of line 373, \<open>None\<close> being nil.
\<close>

fun doForAddrs_loop ::
  "('r, 'p, 'c) GatewayClient \<Rightarrow> string list
     \<Rightarrow> ('c \<Rightarrow> ('r, 'p, 'c) fanout \<Rightarrow> error option \<times> ('r, 'p, 'c) fanout)
     \<Rightarrow> error option \<Rightarrow> ('r, 'p, 'c) fanout \<Rightarrow> error option \<times> ('r, 'p, 'c) fanout" where
  "doForAddrs_loop c [] fn err s = (err, s)"
| "doForAddrs_loop c (a # addrs) fn err s =
     (case pool_GetClientFor c a of
        Inl e \<Rightarrow>
          doForAddrs_loop c addrs fn (Some e)
            (s\<lparr>trace := trace s @
                 [GetClientForCall a, LogError ''failed to get client for instance'']\<rparr>)
      | Inr poolClient \<Rightarrow>
          (case fn poolClient (s\<lparr>trace := trace s @ [GetClientForCall a]\<rparr>) of
             (Some e, s') \<Rightarrow>
               doForAddrs_loop c addrs fn (Some e)
                 (s'\<lparr>trace := trace s' @ [LogError ''client do failed for instance'']\<rparr>)
           | (None, s') \<Rightarrow> (None, s')))"

definition doForAddrs ::
  "('r, 'p, 'c) GatewayClient \<Rightarrow> string list
     \<Rightarrow> ('c \<Rightarrow> ('r, 'p, 'c) fanout \<Rightarrow> error option \<times> ('r, 'p, 'c) fanout)
     \<Rightarrow> ('r, 'p, 'c) fanout \<Rightarrow> error option \<times> ('r, 'p, 'c) fanout" where
  "doForAddrs c addrs fn s = doForAddrs_loop c addrs fn None s"

text \<open>The callback of lines 251 to 280 for the shard \<open>rs\<close> with result slot \<open>i\<close>.\<close>

definition filterCallback ::
  "('r, 'p, 'c) GatewayClient \<Rightarrow> Interval \<Rightarrow> 'p \<Rightarrow> 'r addrWithGroups \<Rightarrow> nat \<Rightarrow> 'c
     \<Rightarrow> ('r, 'p, 'c) fanout \<Rightarrow> error option \<times> ('r, 'p, 'c) fanout" where
  "filterCallback c interval plan rs i client s =
     (let req = \<lparr>req_From = Start interval, req_Through = End interval,
                 req_Refs = groups rs, req_Blocks = blocks rs, req_Plan = plan\<rparr>;
          s = s\<lparr>trace := trace s @ [FilterChunkRefsCall client req]\<rparr>;
          s = (case client_FilterChunkRefs c client req of
                 Inl err \<Rightarrow>
                   s\<lparr>trace := trace s @
                        [LogError ''filter failed for instance, skipping'',
                         ClientRequestsInc typeError],
                     results := (results s)[i := groups rs]\<rparr>
               | Inr resp \<Rightarrow>
                   s\<lparr>trace := trace s @ [ClientRequestsInc typeSuccess],
                     results := (results s)[i := resp]\<rparr>);
          s = s\<lparr>count := count s + int (length (results s ! i))\<rparr>
      in (None, s))"

text \<open>The job of lines 244 to 281 for index \<open>i\<close>.\<close>

definition filterJob ::
  "('r, 'p, 'c) GatewayClient \<Rightarrow> Interval \<Rightarrow> 'p \<Rightarrow> 'r addrWithGroups list \<Rightarrow> nat
     \<Rightarrow> ('r, 'p, 'c) fanout \<Rightarrow> error option \<times> ('r, 'p, 'c) fanout" where
  "filterJob c interval plan servers i s =
     (let rs = servers ! i;
          rs = rs\<lparr>groups := sortSlice (groups rs)\<rparr>
      in doForAddrs c [addr rs] (filterCallback c interval plan rs i) s)"

text \<open>
  \<^verbatim>\<open>concurrency.ForEachJob\<close> (dskit) runs the job for every index below \<open>jobs\<close> and
  stops at the first error. The jobs write disjoint result slots, so the model runs them
  one after the other in index order. The context is described by the error it reports,
  \<open>None\<close> while it is live: a context that is done when the fan-out starts makes it
  return that error with no job run. A cancellation that arrives while jobs are in
  flight is a matter of timing and is not part of this model.
\<close>

fun ForEachJob_run ::
  "nat list \<Rightarrow> (nat \<Rightarrow> 's \<Rightarrow> error option \<times> 's) \<Rightarrow> 's \<Rightarrow> error option \<times> 's" where
  "ForEachJob_run [] jobFunc s = (None, s)"
| "ForEachJob_run (i # idxs) jobFunc s =
     (case jobFunc i s of
        (Some e, s') \<Rightarrow> (Some e, s')
      | (None, s') \<Rightarrow> ForEachJob_run idxs jobFunc s')"

definition ForEachJob ::
  "error option \<Rightarrow> nat \<Rightarrow> (nat \<Rightarrow> 's \<Rightarrow> error option \<times> 's) \<Rightarrow> 's \<Rightarrow> error option \<times> 's" where
  "ForEachJob ctx jobs jobFunc s =
     (if jobs = 0 then (None, s)
      else case ctx of
             Some e \<Rightarrow> (Some e, s)
           | None \<Rightarrow> ForEachJob_run [0..<jobs] jobFunc s)"

text \<open>
  The fan-out of lines 242 to 281: the result slots, the counter, and one job per
  entry of \<open>servers\<close>.
\<close>

definition fanOut ::
  "('r, 'p, 'c) GatewayClient \<Rightarrow> error option \<Rightarrow> Interval \<Rightarrow> 'p \<Rightarrow> 'r addrWithGroups list
     \<Rightarrow> ('r, 'p, 'c) event list \<Rightarrow> error option \<times> ('r, 'p, 'c) fanout" where
  "fanOut c ctx interval plan servers tr =
     ForEachJob ctx (length servers) (filterJob c interval plan servers)
       \<lparr>trace = tr, results = replicate (length servers) [], count = 0\<rparr>"

text \<open>
  \<^verbatim>\<open>FilterChunks\<close> (lines 205 to 289). The result is the record of effects together
  with what Go returns: \<open>Inl\<close> the error with a nil slice, or \<open>Inr\<close> the slice with a
  nil error. A nil slice is the empty list. The second parameter is the tenant, which
  the source leaves unnamed. The buffer handed to \<^verbatim>\<open>mergeSeries\<close> has length 0.
\<close>

definition FilterChunks ::
  "('r::linorder, 'p, 'c) GatewayClient \<Rightarrow> error option \<Rightarrow> string \<Rightarrow> Interval
     \<Rightarrow> 'r blockWithSeries list \<Rightarrow> 'p
     \<Rightarrow> ('r, 'p, 'c) event list \<times> (error + 'r GroupedChunkRefs list)" where
  "FilterChunks c ctx tenant interval blks plan =
     (if length blks = 0 then ([], Inr [])
      else
        (case partitionLoop c blks Map.empty [] [] of
           (tr, Inl err) \<Rightarrow> (tr, Inl err)
         | (tr, Inr servers) \<Rightarrow>
             (case fanOut c ctx interval plan servers tr of
                (Some err, s) \<Rightarrow> (trace s, Inl err)
              | (None, s) \<Rightarrow> (trace s, mergeSeries (results s) []))))"

section \<open>FilterChunks on backing arrays\<close>

text \<open>
  A Go slice is a view of a backing array: the array, an offset into it, a length and a
  capacity. \<^verbatim>\<open>FilterChunks\<close> takes the series slice of a block as the groups of a
  new shard without copying it (line 237), appends to the groups of a shard in place
  where their capacity allows (line 230), sorts them in place (line 247) and keeps them
  as the result of a shard whose remote call failed (line 272); \<^verbatim>\<open>mergeSeries\<close>
  sorts every result in place once more (line 300). What these writes do to slices that
  share an array cannot be seen where a slice is a list, so the call is modelled a
  second time over a memory: the list of all arrays, a slice naming its array by index.
  The entries of the arrays are the groups themselves. (They are pointers in the source;
  the one write through them is the sort of \<^verbatim>\<open>Refs\<close> in the merge closure, lines
  317 to 322, which \<open>mergeGroups\<close> applies to the value it reads.) \<open>sliceVal\<close> reads
  a slice.
\<close>

type_synonym 'a memory = "'a list list"

record slice =
  sl_arr :: nat
  sl_off :: nat
  sl_len :: nat
  sl_cap :: nat

definition sliceVal :: "'a memory \<Rightarrow> slice \<Rightarrow> 'a list" where
  "sliceVal m s = take (sl_len s) (drop (sl_off s) (m ! sl_arr s))"

text \<open>
  \<^verbatim>\<open>append(s, xs...)\<close>. When the capacity of \<open>s\<close> suffices, the new elements are
  written into the array of \<open>s\<close> behind its last element, over whatever is there, and
  the result is \<open>s\<close> with a greater length. Otherwise the elements are copied to a
  new array. How much room the runtime leaves in a new array is not fixed by the
  language; it is the parameter \<open>grow\<close>. The list of an array holds the cells written
  so far; the room behind them is known from the capacity of the slice.
\<close>

definition appendSlice :: "(nat \<Rightarrow> nat) \<Rightarrow> 'a memory \<Rightarrow> slice \<Rightarrow> 'a list \<Rightarrow> 'a memory \<times> slice" where
  "appendSlice grow m s xs =
     (if sl_len s + length xs \<le> sl_cap s then
        (m[sl_arr s := take (sl_off s + sl_len s) (m ! sl_arr s) @ xs
                        @ drop (sl_off s + sl_len s + length xs) (m ! sl_arr s)],
         s\<lparr>sl_len := sl_len s + length xs\<rparr>)
      else
        (m @ [sliceVal m s @ xs],
         \<lparr>sl_arr = length m, sl_off = 0, sl_len = sl_len s + length xs,
          sl_cap = sl_len s + length xs + grow (sl_len s + length xs)\<rparr>))"

text \<open>
  \<^verbatim>\<open>sort.Slice\<close> by Fingerprint (lines 247 and 300): the elements of the slice are
  rearranged within the array, into the order \<open>sortSlice\<close> gives.
\<close>

definition sortSliceInPlace :: "'r GroupedChunkRefs memory \<Rightarrow> slice \<Rightarrow> 'r GroupedChunkRefs memory" where
  "sortSliceInPlace m s =
     m[sl_arr s := take (sl_off s) (m ! sl_arr s) @ sortSlice (sliceVal m s)
                     @ drop (sl_off s + sl_len s) (m ! sl_arr s)]"

text \<open>
  The slice of a response comes from the remote call and has an array of its own. A
  nil slice has length and capacity 0.
\<close>

definition newSlice :: "'a memory \<Rightarrow> 'a list \<Rightarrow> 'a memory \<times> slice" where
  "newSlice m xs =
     (m @ [xs], \<lparr>sl_arr = length m, sl_off = 0, sl_len = length xs, sl_cap = length xs\<rparr>)"

definition nilSlice :: slice where
  "nilSlice = \<lparr>sl_arr = 0, sl_off = 0, sl_len = 0, sl_cap = 0\<rparr>"

text \<open>
  The records of the call, with slices in place of lists.
\<close>

record blockWithSeries_mem =
  block_mem :: string
  series_mem :: slice

record addrWithGroups_mem =
  addr_mem :: string
  blocks_mem :: "string list"
  groups_mem :: slice

text \<open>
  The partitioning loop (lines 212 to 240): a new shard takes the block's series slice
  as it is (line 237), a known shard appends the block's series to its groups
  (line 230). As in \<open>partitionLoop\<close>, \<^verbatim>\<open>firstFp\<close> and \<^verbatim>\<open>lastFp\<close> are left out.
\<close>

fun partitionLoop_mem ::
  "(nat \<Rightarrow> nat) \<Rightarrow> ('r, 'p, 'c) GatewayClient \<Rightarrow> blockWithSeries_mem list \<Rightarrow> (string \<rightharpoonup> nat)
     \<Rightarrow> addrWithGroups_mem list \<Rightarrow> ('r, 'p, 'c) event list \<Rightarrow> 'r GroupedChunkRefs memory
     \<Rightarrow> ('r, 'p, 'c) event list \<times> (error + addrWithGroups_mem list) \<times> 'r GroupedChunkRefs memory" where
  "partitionLoop_mem grow c [] pos servers tr m = (tr, Inr servers, m)"
| "partitionLoop_mem grow c (b # bs) pos servers tr m =
     (case pool_Addr c (block_mem b) of
        Inl err \<Rightarrow>
          (tr @ [AddrCall (block_mem b)],
           Inl (Wrapf err (''server address for block: '' @ block_mem b)), m)
      | Inr a \<Rightarrow>
          (case pos a of
             Some idx \<Rightarrow>
               (case appendSlice grow m (groups_mem (servers ! idx)) (sliceVal m (series_mem b)) of
                  (m', g) \<Rightarrow>
                    partitionLoop_mem grow c bs pos
                      (servers[idx := (servers ! idx)
                         \<lparr>groups_mem := g,
                          blocks_mem := blocks_mem (servers ! idx) @ [block_mem b]\<rparr>])
                      (tr @ [AddrCall (block_mem b)]) m')
           | None \<Rightarrow>
               partitionLoop_mem grow c bs (pos(a \<mapsto> length servers))
                 (servers @ [\<lparr>addr_mem = a, blocks_mem = [block_mem b], groups_mem = series_mem b\<rparr>])
                 (tr @ [AddrCall (block_mem b)]) m))"

text \<open>
  The state of the fan-out, now with the memory, and \<open>doForAddrs\<close> over it.
\<close>

record ('r, 'p, 'c) fanout_mem =
  trace_mem :: "('r, 'p, 'c) event list"
  results_mem :: "slice list"
  count_mem :: int
  mem :: "'r GroupedChunkRefs memory"

fun doForAddrs_loop_mem ::
  "('r, 'p, 'c) GatewayClient \<Rightarrow> string list
     \<Rightarrow> ('c \<Rightarrow> ('r, 'p, 'c) fanout_mem \<Rightarrow> error option \<times> ('r, 'p, 'c) fanout_mem)
     \<Rightarrow> error option \<Rightarrow> ('r, 'p, 'c) fanout_mem \<Rightarrow> error option \<times> ('r, 'p, 'c) fanout_mem" where
  "doForAddrs_loop_mem c [] fn err s = (err, s)"
| "doForAddrs_loop_mem c (a # addrs) fn err s =
     (case pool_GetClientFor c a of
        Inl e \<Rightarrow>
          doForAddrs_loop_mem c addrs fn (Some e)
            (s\<lparr>trace_mem := trace_mem s @
                 [GetClientForCall a, LogError ''failed to get client for instance'']\<rparr>)
      | Inr poolClient \<Rightarrow>
          (case fn poolClient (s\<lparr>trace_mem := trace_mem s @ [GetClientForCall a]\<rparr>) of
             (Some e, s') \<Rightarrow>
               doForAddrs_loop_mem c addrs fn (Some e)
                 (s'\<lparr>trace_mem := trace_mem s' @ [LogError ''client do failed for instance'']\<rparr>)
           | (None, s') \<Rightarrow> (None, s')))"

definition doForAddrs_mem ::
  "('r, 'p, 'c) GatewayClient \<Rightarrow> string list
     \<Rightarrow> ('c \<Rightarrow> ('r, 'p, 'c) fanout_mem \<Rightarrow> error option \<times> ('r, 'p, 'c) fanout_mem)
     \<Rightarrow> ('r, 'p, 'c) fanout_mem \<Rightarrow> error option \<times> ('r, 'p, 'c) fanout_mem" where
  "doForAddrs_mem c addrs fn s = doForAddrs_loop_mem c addrs fn None s"

text \<open>
  The callback (lines 251 to 279). The request carries the groups as they are in memory
  when it is sent. After a failed call the slot is the shard's slice itself (line 272).
\<close>

definition filterCallback_mem ::
  "('r, 'p, 'c) GatewayClient \<Rightarrow> Interval \<Rightarrow> 'p \<Rightarrow> addrWithGroups_mem \<Rightarrow> nat \<Rightarrow> 'c
     \<Rightarrow> ('r, 'p, 'c) fanout_mem \<Rightarrow> error option \<times> ('r, 'p, 'c) fanout_mem" where
  "filterCallback_mem c interval plan rs i client s =
     (let req = \<lparr>req_From = Start interval, req_Through = End interval,
                 req_Refs = sliceVal (mem s) (groups_mem rs), req_Blocks = blocks_mem rs,
                 req_Plan = plan\<rparr>;
          s = s\<lparr>trace_mem := trace_mem s @ [FilterChunkRefsCall client req]\<rparr>;
          s = (case client_FilterChunkRefs c client req of
                 Inl err \<Rightarrow>
                   s\<lparr>trace_mem := trace_mem s @
                        [LogError ''filter failed for instance, skipping'',
                         ClientRequestsInc typeError],
                     results_mem := (results_mem s)[i := groups_mem rs]\<rparr>
               | Inr resp \<Rightarrow>
                   (case newSlice (mem s) resp of
                      (m', r) \<Rightarrow>
                        s\<lparr>trace_mem := trace_mem s @ [ClientRequestsInc typeSuccess],
                          results_mem := (results_mem s)[i := r], mem := m'\<rparr>));
          s = s\<lparr>count_mem := count_mem s + int (sl_len (results_mem s ! i))\<rparr>
      in (None, s))"

text \<open>
  One job (lines 244 to 280): the in-place sort of the shard's groups, then the
  callback. The jobs run one after the other, as in \<open>fanOut\<close>; when the groups of the
  shards are separate, the jobs write different arrays and different slots.
\<close>

definition filterJob_mem ::
  "('r, 'p, 'c) GatewayClient \<Rightarrow> Interval \<Rightarrow> 'p \<Rightarrow> addrWithGroups_mem list \<Rightarrow> nat
     \<Rightarrow> ('r, 'p, 'c) fanout_mem \<Rightarrow> error option \<times> ('r, 'p, 'c) fanout_mem" where
  "filterJob_mem c interval plan servers i s =
     (let rs = servers ! i;
          s = s\<lparr>mem := sortSliceInPlace (mem s) (groups_mem rs)\<rparr>
      in doForAddrs_mem c [addr_mem rs] (filterCallback_mem c interval plan rs i) s)"

definition fanOut_mem ::
  "('r, 'p, 'c) GatewayClient \<Rightarrow> error option \<Rightarrow> Interval \<Rightarrow> 'p \<Rightarrow> addrWithGroups_mem list
     \<Rightarrow> ('r, 'p, 'c) event list \<Rightarrow> 'r GroupedChunkRefs memory
     \<Rightarrow> error option \<times> ('r, 'p, 'c) fanout_mem" where
  "fanOut_mem c ctx interval plan servers tr m =
     ForEachJob ctx (length servers) (filterJob_mem c interval plan servers)
       \<lparr>trace_mem = tr, results_mem = replicate (length servers) nilSlice, count_mem = 0,
        mem = m\<rparr>"

text \<open>
  \<^verbatim>\<open>mergeSeries\<close> (lines 294 to 334) on slices: all inputs are sorted in place, in
  order (line 300), before the iterators read the first element.
\<close>

definition mergeSeries_mem ::
  "'r::linorder GroupedChunkRefs memory \<Rightarrow> slice list \<Rightarrow> 'r GroupedChunkRefs list
     \<Rightarrow> (error + 'r GroupedChunkRefs list) \<times> 'r GroupedChunkRefs memory" where
  "mergeSeries_mem m input buf =
     (let buf = take 0 buf;
          m = foldl sortSliceInPlace m input;
          iters = map (sliceVal m) input;
          heapIter = HeapIterator lessFingerprint iters;
          dedupeIter = DedupingIter eqFingerprint Identity mergeGroups heapIter
      in (CollectInto dedupeIter buf, m))"

text \<open>
  \<^verbatim>\<open>FilterChunks\<close> (lines 205 to 289) over a memory. The memory after the call is
  returned with the result.
\<close>

definition FilterChunks_mem ::
  "(nat \<Rightarrow> nat) \<Rightarrow> ('r::linorder, 'p, 'c) GatewayClient \<Rightarrow> error option \<Rightarrow> string \<Rightarrow> Interval
     \<Rightarrow> blockWithSeries_mem list \<Rightarrow> 'p \<Rightarrow> 'r GroupedChunkRefs memory
     \<Rightarrow> ('r, 'p, 'c) event list \<times> (error + 'r GroupedChunkRefs list) \<times> 'r GroupedChunkRefs memory" where
  "FilterChunks_mem grow c ctx tenant interval blks plan m =
     (if length blks = 0 then ([], Inr [], m)
      else
        (case partitionLoop_mem grow c blks Map.empty [] [] m of
           (tr, Inl err, m) \<Rightarrow> (tr, Inl err, m)
         | (tr, Inr servers, m) \<Rightarrow>
             (case fanOut_mem c ctx interval plan servers tr m of
                (Some err, s) \<Rightarrow> (trace_mem s, Inl err, mem s)
              | (None, s) \<Rightarrow>
                  (case mergeSeries_mem (mem s) (results_mem s) [] of
                     (r, m) \<Rightarrow> (trace_mem s, r, m)))))"

section \<open>Auxiliary definitions\<close>

text \<open>
  The loop of \<open>mergeChunkSets\<close> as a recursion on the two remaining suffixes; the
  properties of the loop are proved on this form.
\<close>

fun union_merge :: "'r::linorder list \<Rightarrow> 'r list \<Rightarrow> 'r list" where
  "union_merge [] ys = ys"
| "union_merge xs [] = xs"
| "union_merge (a # xs) (b # ys) =
     (if a = b then a # union_merge xs ys
      else if a < b then a # union_merge xs (b # ys)
      else b # union_merge (a # xs) ys)"

text \<open>The stream that the heap iterator hands to the deduplication stage.\<close>

definition mergedStream :: "'r GroupedChunkRefs list list \<Rightarrow> 'r GroupedChunkRefs list" where
  "mergedStream input = HeapIterator lessFingerprint (map sortSlice input)"

text \<open>A list with every item repeated once, the merged stream of a list with itself.\<close>

definition twice :: "'a list \<Rightarrow> 'a list" where
  "twice xs = concat (map (\<lambda>x. [x, x]) xs)"

text \<open>
  The entries of the input lists that contribute to a Fingerprint, and the sorted,
  duplicate-free union of the chunk references of a list of entries.
\<close>

definition contributing :: "64 word \<Rightarrow> 'r GroupedChunkRefs list list \<Rightarrow> 'r GroupedChunkRefs list" where
  "contributing fp input = filter (\<lambda>g. Fingerprint g = fp) (concat input)"

definition unionRefs :: "'r::linorder GroupedChunkRefs list \<Rightarrow> 'r list" where
  "unionRefs gs = sort (remdups (concat (map Refs gs)))"

text \<open>
  The request that the job of a shard sends, and the content of the shard's result slot
  once its job has run with a client: the answer of the gateway, or the groups as sent
  when the call fails.
\<close>

definition shardRequest :: "Interval \<Rightarrow> 'p \<Rightarrow> 'r addrWithGroups \<Rightarrow> ('r, 'p) FilterChunkRefRequest" where
  "shardRequest interval plan rs =
     \<lparr>req_From = Start interval, req_Through = End interval,
      req_Refs = sortSlice (groups rs), req_Blocks = blocks rs, req_Plan = plan\<rparr>"

definition shardResult ::
  "('r, 'p, 'c) GatewayClient \<Rightarrow> Interval \<Rightarrow> 'p \<Rightarrow> 'r addrWithGroups \<Rightarrow> 'r GroupedChunkRefs list" where
  "shardResult c interval plan rs =
     (case pool_GetClientFor c (addr rs) of
        Inl e \<Rightarrow> []
      | Inr cl \<Rightarrow>
          (case client_FilterChunkRefs c cl (shardRequest interval plan rs) of
             Inl e \<Rightarrow> sortSlice (groups rs)
           | Inr resp \<Rightarrow> resp))"

text \<open>
  The view that the list model has of a block and of a shard in a given memory.
\<close>

definition readBlock :: "'r GroupedChunkRefs memory \<Rightarrow> blockWithSeries_mem \<Rightarrow> 'r blockWithSeries" where
  "readBlock m b = \<lparr>block = block_mem b, series = sliceVal m (series_mem b)\<rparr>"

definition readServer :: "'r GroupedChunkRefs memory \<Rightarrow> addrWithGroups_mem \<Rightarrow> 'r addrWithGroups" where
  "readServer m rs = \<lparr>addr = addr_mem rs, blocks = blocks_mem rs, groups = sliceVal m (groups_mem rs)\<rparr>"

text \<open>
  A slice is well-formed when it lies within its array. The slices of a list are
  separate when they are well-formed and no two of them have the same array.
\<close>

definition wf_slice :: "'a memory \<Rightarrow> slice \<Rightarrow> bool" where
  "wf_slice m s \<longleftrightarrow>
     sl_arr s < length m \<and> sl_off s + sl_len s \<le> length (m ! sl_arr s) \<and> sl_len s \<le> sl_cap s"

definition separate :: "'a memory \<Rightarrow> slice list \<Rightarrow> bool" where
  "separate m ss \<longleftrightarrow> list_all (wf_slice m) ss \<and> distinct (map sl_arr ss)"





text \<open>
  The invariant of the fan-out before job \<open>k\<close>: the groups of the shards are separate,
  the slots written so far are separate and share no array with the groups of a later
  shard, and the other slots are empty. \<open>fan_rel\<close> relates the state over a memory to
  the state of the list model.
\<close>

definition fan_inv :: "slice list \<Rightarrow> nat \<Rightarrow> 'r GroupedChunkRefs memory \<Rightarrow> slice list \<Rightarrow> bool" where
  "fan_inv gs k m slots \<longleftrightarrow>
     length slots = length gs \<and> separate m gs \<and> separate m (take k slots)
     \<and> (\<forall>j<k. \<forall>k'<length gs. k \<le> k' \<longrightarrow> sl_arr (slots ! j) \<noteq> sl_arr (gs ! k'))
     \<and> (\<forall>j<length gs. k \<le> j \<longrightarrow> sl_len (slots ! j) = 0)"

definition fan_rel :: "('r, 'p, 'c) fanout_mem \<Rightarrow> ('r, 'p, 'c) fanout \<Rightarrow> bool" where
  "fan_rel s sv \<longleftrightarrow>
     trace sv = trace_mem s \<and> count sv = count_mem s
     \<and> results sv = map (sliceVal (mem s)) (results_mem s)"

section \<open>Example inputs\<close>

text \<open>Chunk references are natural numbers in the examples, \<open>c1\<close> being \<open>1\<close>.\<close>

definition shards1 :: "nat GroupedChunkRefs list list" where
  "shards1 =
     [[\<lparr>Fingerprint = 5, Tenant = ''t'', Refs = [7]\<rparr>,
       \<lparr>Fingerprint = 10, Tenant = ''t'', Refs = [1, 2]\<rparr>],
      [\<lparr>Fingerprint = 10, Tenant = ''t'', Refs = [2, 3]\<rparr>,
       \<lparr>Fingerprint = 20, Tenant = ''t'', Refs = [4]\<rparr>]]"

definition scenarioA :: "nat GroupedChunkRefs list list" where
  "scenarioA =
     [[\<lparr>Fingerprint = 10, Tenant = ''t'', Refs = [1, 2]\<rparr>],
      [\<lparr>Fingerprint = 10, Tenant = ''t'', Refs = [2, 3]\<rparr>]]"

definition series1 :: "nat GroupedChunkRefs list" where
  "series1 =
     [\<lparr>Fingerprint = 5, Tenant = ''t'', Refs = [1]\<rparr>,
      \<lparr>Fingerprint = 10, Tenant = ''t'', Refs = [1, 2]\<rparr>]"

text \<open>
  Two blocks owned by two gateways. The first gateway answers with one filtered entry;
  the call to the second fails.
\<close>

definition gatewayB :: "(nat, unit, string) GatewayClient" where
  "gatewayB =
     \<lparr>pool_Addr = (\<lambda>key. if key = ''block-a'' then Inr ''gw-1''
                        else if key = ''block-b'' then Inr ''gw-2''
                        else Inl (Error ''no address'')),
      pool_GetClientFor = (\<lambda>a. Inr a),
      client_FilterChunkRefs = (\<lambda>client req.
         if client = ''gw-1'' then Inr [\<lparr>Fingerprint = 5, Tenant = ''t'', Refs = [1]\<rparr>]
         else Inl (Error ''unavailable''))\<rparr>"

definition blocksB :: "nat blockWithSeries list" where
  "blocksB =
     [\<lparr>block = ''block-a'', series = [\<lparr>Fingerprint = 5, Tenant = ''t'', Refs = [1, 2]\<rparr>]\<rparr>,
      \<lparr>block = ''block-b'', series = [\<lparr>Fingerprint = 20, Tenant = ''t'', Refs = [4, 5]\<rparr>]\<rparr>]"

definition intervalB :: Interval where
  "intervalB = \<lparr>Start = 0, End = 10\<rparr>"

text \<open>The same gateways, but no client can be obtained for the second address.\<close>

definition gatewayC :: "(nat, unit, string) GatewayClient" where
  "gatewayC = gatewayB\<lparr>pool_GetClientFor :=
      (\<lambda>a. if a = ''gw-2'' then Inl (Error ''dial failed'') else Inr a)\<rparr>"







section \<open>Properties of mergeChunkSets\<close>

lemma union_merge_Nil2 [simp]: "union_merge xs [] = xs"
  by (cases xs) simp_all

lemma mergeChunkSets_loop_union_merge:
  "mergeChunkSets_rest s1 s2 (mergeChunkSets_loop s1 s2 i j result) =
     result @ union_merge (drop i s1) (drop j s2)"
proof (induction s1 s2 i j result rule: mergeChunkSets_loop.induct)
  case (1 s1 s2 i j result)
  show ?case
  proof (cases "i < length s1 \<and> j < length s2")
    case True
    then have d1: "drop i s1 = s1 ! i # drop (Suc i) s1"
      and d2: "drop j s2 = s2 ! j # drop (Suc j) s2"
      by (simp_all add: Cons_nth_drop_Suc)
    show ?thesis
    proof (cases "s1 ! i = s2 ! j")
      case eq: True
      with True "1.IH"(1) show ?thesis
        by (subst mergeChunkSets_loop.simps) (simp add: Equal_def d1 d2)
    next
      case neq: False
      show ?thesis
      proof (cases "s1 ! i < s2 ! j")
        case lt: True
        with True neq "1.IH"(2) show ?thesis
          by (subst mergeChunkSets_loop.simps) (simp add: Equal_def Less_def d1 d2)
      next
        case nlt: False
        with True neq "1.IH"(3) show ?thesis
          by (subst mergeChunkSets_loop.simps) (simp add: Equal_def Less_def d1 d2)
      qed
    qed
  next
    case False
    then show ?thesis
      by (subst mergeChunkSets_loop.simps) (auto simp: mergeChunkSets_rest_def)
  qed
qed

lemma mergeChunkSets_union_merge: "mergeChunkSets s1 s2 = union_merge s1 s2"
  by (simp add: mergeChunkSets_def mergeChunkSets_loop_union_merge)

lemma set_union_merge: "set (union_merge xs ys) = set xs \<union> set ys"
  by (induction xs ys rule: union_merge.induct) auto

lemma length_union_merge_le: "length (union_merge xs ys) \<le> length xs + length ys"
  by (induction xs ys rule: union_merge.induct) auto

lemma length_union_merge_ge:
  "length xs \<le> length (union_merge xs ys) \<and> length ys \<le> length (union_merge xs ys)"
  by (induction xs ys rule: union_merge.induct) auto

lemma strict_sorted_union_merge:
  "sorted_wrt (<) xs \<Longrightarrow> sorted_wrt (<) ys \<Longrightarrow> sorted_wrt (<) (union_merge xs ys)"
  by (induction xs ys rule: union_merge.induct) (auto simp: set_union_merge)

lemma union_merge_same: "union_merge xs xs = xs"
  by (induction xs) simp_all

text \<open>
  Claim C3. For chunk reference lists \<open>A\<close> and \<open>B\<close> that are sorted ascending and free of
  duplicates, \<open>mergeChunkSets A B\<close> is sorted and free of duplicates, its length lies
  between \<open>max |A| |B|\<close> and \<open>|A| + |B|\<close>, and its elements are exactly those of \<open>A\<close>
  and \<open>B\<close> together.
\<close>

theorem mergeChunkSets_sorted_union:
  assumes "sorted A" "distinct A" "sorted B" "distinct B"
  shows "sorted (mergeChunkSets A B) \<and> distinct (mergeChunkSets A B)
       \<and> max (length A) (length B) \<le> length (mergeChunkSets A B)
       \<and> length (mergeChunkSets A B) \<le> length A + length B
       \<and> set (mergeChunkSets A B) = set A \<union> set B"
proof -
  from assms have "sorted_wrt (<) A" "sorted_wrt (<) B"
    by (simp_all add: strict_sorted_iff)
  then have "sorted_wrt (<) (union_merge A B)"
    by (rule strict_sorted_union_merge)
  then have "sorted (mergeChunkSets A B) \<and> distinct (mergeChunkSets A B)"
    by (simp add: mergeChunkSets_union_merge strict_sorted_iff)
  moreover have "max (length A) (length B) \<le> length (mergeChunkSets A B)"
    using length_union_merge_ge [of A B] by (simp add: mergeChunkSets_union_merge)
  moreover have "length (mergeChunkSets A B) \<le> length A + length B"
    by (simp add: mergeChunkSets_union_merge length_union_merge_le)
  moreover have "set (mergeChunkSets A B) = set A \<union> set B"
    by (simp add: mergeChunkSets_union_merge set_union_merge)
  ultimately show ?thesis by blast
qed

theorem mergeChunkSets_sorted_union_witness:
  "mergeChunkSets [1, 2, 5 :: nat] [2, 3] = [1, 2, 3, 5]
   \<and> sorted (mergeChunkSets [1, 2, 5 :: nat] [2, 3])
   \<and> distinct (mergeChunkSets [1, 2, 5 :: nat] [2, 3])
   \<and> max (length [1, 2, 5 :: nat]) (length [2, 3 :: nat]) \<le> length (mergeChunkSets [1, 2, 5 :: nat] [2, 3])
   \<and> length (mergeChunkSets [1, 2, 5 :: nat] [2, 3]) \<le> length [1, 2, 5 :: nat] + length [2, 3 :: nat]
   \<and> set (mergeChunkSets [1, 2, 5 :: nat] [2, 3]) = set [1, 2, 5] \<union> set [2, 3]"
proof -
  have v: "mergeChunkSets [1, 2, 5 :: nat] [2, 3] = [1, 2, 3, 5]"
    by (simp add: mergeChunkSets_def mergeChunkSets_rest_def mergeChunkSets_loop.simps
        Equal_def Less_def)
  have h: "sorted [1, 2, 5 :: nat]" "distinct [1, 2, 5 :: nat]"
          "sorted [2, 3 :: nat]" "distinct [2, 3 :: nat]"
    by simp_all
  from v mergeChunkSets_sorted_union [OF h] show ?thesis by blast
qed

section \<open>Properties of the iterators\<close>

lemmas mergeSeries_eval =
  mergeSeries_def sortSlice_def HeapIterator.simps lessFingerprint_def DedupingIter_def
  eqFingerprint_def Identity_def mergeGroups_def CollectInto_def Cmp_def
  mergeChunkSets_def mergeChunkSets_rest_def mergeChunkSets_loop.simps Equal_def Less_def

lemma IsSortedFunc_Cmp: "IsSortedFunc Cmp xs = sorted xs"
proof (induction xs rule: induct_list012)
  case (3 x y zs)
  have "(\<not> Cmp y x < 0) = (x \<le> y)" by (auto simp: Cmp_def)
  with 3 show ?case by (simp del: sorted_wrt.simps add: sorted2)
qed simp_all

lemma set_mergeGroups: "set (Refs (mergeGroups a b)) = set (Refs a) \<union> set (Refs b)"
  by (simp add: mergeGroups_def Let_def mergeChunkSets_union_merge set_union_merge SortFunc_def)

lemma Fingerprint_mergeGroups: "Fingerprint (mergeGroups a b) = Fingerprint a"
  by (simp add: mergeGroups_def Let_def)

lemma strict_sorted_mergeGroups:
  "sorted_wrt (<) (Refs a) \<Longrightarrow> sorted_wrt (<) (Refs b) \<Longrightarrow> sorted_wrt (<) (Refs (mergeGroups a b))"
  by (simp add: mergeGroups_def Let_def mergeChunkSets_union_merge strict_sorted_union_merge
      IsSortedFunc_Cmp strict_sorted_iff [of "Refs a"] strict_sorted_iff [of "Refs b"])

lemma mergeGroups_same: "sorted (Refs g) \<Longrightarrow> mergeGroups g g = (g :: 'r::linorder GroupedChunkRefs)"
  by (simp add: mergeGroups_def IsSortedFunc_Cmp mergeChunkSets_union_merge union_merge_same)

text \<open>
  One step of the heap iterator removes one item from the sources, keeps the sources
  ascending, and the item it takes is the least one.
\<close>

lemma heapPop_None: "heapPop lt its = None \<longleftrightarrow> concat its = []"
  by (induction lt its rule: heapPop.induct) (auto split: option.splits)

lemma heapPop_mset:
  "heapPop lt its = Some (x, its') \<Longrightarrow> mset (concat its) = add_mset x (mset (concat its'))"
proof (induction lt its arbitrary: x its' rule: heapPop.induct)
  case (3 lt y rest its)
  show ?case
  proof (cases "heapPop lt its")
    case None
    with "3.prems" show ?thesis by (auto simp: heapPop_None)
  next
    case (Some q)
    obtain z its2 where q: "q = (z, its2)" by (cases q)
    with Some "3.prems" "3.IH" [of z its2] show ?thesis
      by (auto split: if_splits)
  qed
qed simp_all

lemma heapPop_least:
  assumes "heapPop (\<lambda>a b. key a < key b) its = Some (x, its')"
    and "\<forall>l\<in>set its. sorted (map key l)"
  shows "(\<forall>y\<in>set (concat its). (key x :: 'k::linorder) \<le> key y)"
  using assms
proof (induction "\<lambda>a b. key a < key b" its arbitrary: x its' rule: heapPop.induct)
  case (3 y rest its)
  show ?case
  proof (cases "heapPop (\<lambda>a b. key a < key b) its")
    case None
    with "3.prems" show ?thesis by (auto simp: heapPop_None)
  next
    case (Some q)
    obtain z its2 where q: "q = (z, its2)" by (cases q)
    from "3.prems" have srt: "\<forall>l\<in>set its. sorted (map key l)" by simp
    from "3.hyps" [OF Some [unfolded q] srt] have zmin: "\<forall>y\<in>set (concat its). key z \<le> key y" .
    from "3.prems" have yrest: "\<forall>w\<in>set rest. key y \<le> key w" by simp
    show ?thesis
    proof (cases "key z < key y")
      case True
      with Some q "3.prems" have "x = z" by simp
      with True zmin yrest show ?thesis by fastforce
    next
      case False
      with Some q "3.prems" have "x = y" by simp
      with False zmin yrest show ?thesis by fastforce
    qed
  qed
qed simp_all

lemma heapPop_sorted:
  "heapPop lt its = Some (x, its') \<Longrightarrow> \<forall>l\<in>set its. sorted (map key l)
     \<Longrightarrow> \<forall>l\<in>set its'. sorted (map key l)"
proof (induction lt its arbitrary: x its' rule: heapPop.induct)
  case (3 lt y rest its)
  show ?case
  proof (cases "heapPop lt its")
    case None
    with "3.prems" show ?thesis by auto
  next
    case (Some q)
    obtain z its2 where q: "q = (z, its2)" by (cases q)
    with Some "3.prems" "3.IH" [of z its2] show ?thesis
      by (auto split: if_splits)
  qed
qed simp_all

text \<open>
  The merged stream is a rearrangement of all items of the sources, ascending by key
  when every source is.
\<close>

lemma mset_HeapIterator: "mset (HeapIterator lt its) = mset (concat its)"
proof (induction lt its rule: HeapIterator.induct)
  case (1 lt its)
  show ?case
  proof (cases "heapPop lt its")
    case None
    then have c: "concat its = []" by (simp add: heapPop_None)
    show ?thesis unfolding HeapIterator.simps [of lt its] None c by simp
  next
    case (Some q)
    obtain x its' where q: "q = (x, its')" by (cases q)
    from Some q have pop: "heapPop lt its = Some (x, its')" by simp
    have ih: "mset (HeapIterator lt its') = mset (concat its')"
      using "1.IH" [OF Some q [symmetric]] .
    show ?thesis unfolding HeapIterator.simps [of lt its] pop
      using ih heapPop_mset [OF pop] by simp
  qed
qed

lemma set_HeapIterator: "set (HeapIterator lt its) = set (concat its)"
  by (metis mset_HeapIterator set_mset_mset)

lemma sorted_HeapIterator:
  "\<forall>l\<in>set its. sorted (map key l) \<Longrightarrow>
   sorted (map (key :: 'a \<Rightarrow> 'k::linorder) (HeapIterator (\<lambda>a b. key a < key b) its))"
proof (induction "\<lambda>a b. key a < key b" its rule: HeapIterator.induct)
  case (1 its)
  show ?case
  proof (cases "heapPop (\<lambda>a b. key a < key b) its")
    case None
    show ?thesis unfolding HeapIterator.simps [of "\<lambda>a b. key a < key b" its] None by simp
  next
    case (Some q)
    obtain x its' where q: "q = (x, its')" by (cases q)
    from Some q have pop: "heapPop (\<lambda>a b. key a < key b) its = Some (x, its')" by simp
    from heapPop_sorted [OF pop "1.prems"] have s': "\<forall>l\<in>set its'. sorted (map key l)" .
    from "1.hyps" [OF Some q [symmetric] s'] have ih: "sorted (map key (HeapIterator (\<lambda>a b. key a < key b) its'))" .
    from heapPop_least [OF pop "1.prems"] heapPop_mset [OF pop]
    have "\<forall>y\<in>set (concat its'). key x \<le> key y"
      by (metis insert_iff set_mset_add_mset_insert set_mset_mset)
    with ih show ?thesis unfolding HeapIterator.simps [of "\<lambda>a b. key a < key b" its] pop
      by (simp add: set_HeapIterator)
  qed
qed

text \<open>
  The deduplication stage with the closures of \<open>mergeSeries\<close>. Its keys are those of
  the stream with adjacent repetitions removed, whatever the stream is.
\<close>

lemma DedupeIter_run_Cons:
  "DedupeIter_run eqFingerprint Identity mergeGroups tmp (x # xs) =
     (if Fingerprint x = Fingerprint tmp
      then DedupeIter_run eqFingerprint Identity mergeGroups (mergeGroups x tmp) xs
      else tmp # DedupeIter_run eqFingerprint Identity mergeGroups x xs)"
proof -
  have a: "eqFingerprint x tmp = (Fingerprint x = Fingerprint tmp)"
    by (simp add: eqFingerprint_def)
  have b: "Identity x = x"
    by (simp add: Identity_def)
  show ?thesis unfolding DedupeIter_run.simps a b ..
qed

lemma DedupingIter_Cons:
  "DedupingIter eqFingerprint Identity mergeGroups (x # xs) =
     DedupeIter_run eqFingerprint Identity mergeGroups x xs"
proof -
  have b: "Identity x = x"
    by (simp add: Identity_def)
  show ?thesis unfolding DedupingIter_def list.case b ..
qed

lemma DedupingIter_Nil: "DedupingIter eq frm mrg [] = []"
  unfolding DedupingIter_def by simp

lemma strict_sorted_remdups_adj:
  "sorted (ks :: 'k::linorder list) \<Longrightarrow> sorted_wrt (<) (remdups_adj ks)"
  by (induction ks rule: remdups_adj.induct) (auto simp: order_less_le)

lemma DedupeIter_run_keys:
  "map Fingerprint (DedupeIter_run eqFingerprint Identity mergeGroups tmp xs)
     = remdups_adj (Fingerprint tmp # map Fingerprint xs)"
  by (induction xs arbitrary: tmp)
     (auto simp: eqFingerprint_def Identity_def Fingerprint_mergeGroups)

lemma DedupingIter_keys:
  "map Fingerprint (DedupingIter eqFingerprint Identity mergeGroups xs)
     = remdups_adj (map Fingerprint xs)"
  by (cases xs) (simp_all add: DedupingIter_def DedupeIter_run_keys Identity_def)

lemma DedupeIter_run_fp_set:
  "Fingerprint ` set (DedupeIter_run eqFingerprint Identity mergeGroups tmp xs)
     = Fingerprint ` set (tmp # xs)"
proof -
  have "set (map Fingerprint (DedupeIter_run eqFingerprint Identity mergeGroups tmp xs))
      = set (map Fingerprint (tmp # xs))"
    unfolding DedupeIter_run_keys by simp
  then show ?thesis by simp
qed

text \<open>
  On a stream that is ascending by Fingerprint, the chunk references of an emitted entry
  are those of all the items of the stream with its Fingerprint.
\<close>

lemma DedupeIter_run_refs_sorted:
  "\<forall>g\<in>set (tmp # xs). sorted_wrt (<) (Refs g) \<Longrightarrow>
   e \<in> set (DedupeIter_run eqFingerprint Identity mergeGroups tmp xs) \<Longrightarrow>
   sorted_wrt (<) (Refs e)"
proof (induction xs arbitrary: tmp)
  case Nil
  then show ?case by simp
next
  case (Cons x xs)
  show ?case
  proof (cases "Fingerprint x = Fingerprint tmp")
    case True
    from Cons.prems(1) have "sorted_wrt (<) (Refs (mergeGroups x tmp))"
      by (simp add: strict_sorted_mergeGroups)
    with Cons.prems(1) have "\<forall>g\<in>set (mergeGroups x tmp # xs). sorted_wrt (<) (Refs g)"
      by simp
    moreover from Cons.prems(2) True
    have "e \<in> set (DedupeIter_run eqFingerprint Identity mergeGroups (mergeGroups x tmp) xs)"
      by (simp add: DedupeIter_run_Cons del: DedupeIter_run.simps)
    ultimately show ?thesis by (rule Cons.IH)
  next
    case False
    with Cons.prems(2)
    have "e = tmp \<or> e \<in> set (DedupeIter_run eqFingerprint Identity mergeGroups x xs)"
      by (simp add: DedupeIter_run_Cons del: DedupeIter_run.simps)
    then show ?thesis
    proof
      assume "e = tmp"
      with Cons.prems(1) show ?thesis by simp
    next
      assume "e \<in> set (DedupeIter_run eqFingerprint Identity mergeGroups x xs)"
      moreover from Cons.prems(1) have "\<forall>g\<in>set (x # xs). sorted_wrt (<) (Refs g)" by simp
      ultimately show ?thesis using Cons.IH by blast
    qed
  qed
qed

lemma DedupeIter_run_refs_set:
  "sorted (map Fingerprint (tmp # xs)) \<Longrightarrow>
   e \<in> set (DedupeIter_run eqFingerprint Identity mergeGroups tmp xs) \<Longrightarrow>
   set (Refs e) = (\<Union>g\<in>{g \<in> set (tmp # xs). Fingerprint g = Fingerprint e}. set (Refs g))"
proof (induction xs arbitrary: tmp)
  case Nil
  then show ?case by auto
next
  case (Cons x xs)
  show ?case
  proof (cases "Fingerprint x = Fingerprint tmp")
    case True
    let ?t = "mergeGroups x tmp"
    from Cons.prems(1) True have s: "sorted (map Fingerprint (?t # xs))"
      by (simp add: Fingerprint_mergeGroups)
    from Cons.prems(2) True have e: "e \<in> set (DedupeIter_run eqFingerprint Identity mergeGroups ?t xs)"
      by (simp add: DedupeIter_run_Cons del: DedupeIter_run.simps)
    from Cons.IH [OF s e] True show ?thesis
      by (auto simp: set_mergeGroups Fingerprint_mergeGroups)
  next
    case False
    with Cons.prems(1) have lt: "\<forall>g\<in>set (x # xs). Fingerprint tmp < Fingerprint g"
      by (auto simp: order_less_le)
    from Cons.prems(1) have s: "sorted (map Fingerprint (x # xs))" by simp
    from Cons.prems(2) False
    have "e = tmp \<or> e \<in> set (DedupeIter_run eqFingerprint Identity mergeGroups x xs)"
      by (simp add: DedupeIter_run_Cons del: DedupeIter_run.simps)
    then show ?thesis
    proof
      assume "e = tmp"
      with lt show ?thesis by auto
    next
      assume e: "e \<in> set (DedupeIter_run eqFingerprint Identity mergeGroups x xs)"
      then have "Fingerprint e \<in> Fingerprint ` set (x # xs)"
        using DedupeIter_run_fp_set [of x xs] by blast
      with lt have "Fingerprint tmp \<noteq> Fingerprint e" by auto
      with Cons.IH [OF s e] show ?thesis by auto
    qed
  qed
qed


lemma unionRefs_unique:
  "sorted_wrt (<) rs \<Longrightarrow> set rs = (\<Union>g\<in>set gs. set (Refs g)) \<Longrightarrow> rs = unionRefs gs"
proof -
  assume a: "sorted_wrt (<) rs" and b: "set rs = (\<Union>g\<in>set gs. set (Refs g))"
  have "sorted (unionRefs gs)" "distinct (unionRefs gs)"
    "set (unionRefs gs) = (\<Union>g\<in>set gs. set (Refs g))"
    by (simp_all add: unionRefs_def)
  with a b show ?thesis
    by (intro sorted_distinct_set_unique) (simp_all add: strict_sorted_iff)
qed

lemma unionRefs_set_eq: "unionRefs gs = sorted_list_of_set (\<Union>g\<in>set gs. set (Refs g))"
proof -
  have "(\<Union>g\<in>set gs. set (Refs g)) = set (concat (map Refs gs))" by simp
  then show ?thesis
    unfolding unionRefs_def by (simp only: sorted_list_of_set_sort_remdups)
qed

lemma unionRefs_cong: "set gs = set gs' \<Longrightarrow> unionRefs gs = unionRefs gs'"
  by (simp add: unionRefs_set_eq)

lemma DedupingIter_refs:
  assumes "sorted (map Fingerprint s)" "\<forall>g\<in>set s. sorted_wrt (<) (Refs g)"
    and "e \<in> set (DedupingIter eqFingerprint Identity mergeGroups s)"
  shows "Refs e = unionRefs (filter (\<lambda>g. Fingerprint g = Fingerprint e) s)"
proof (cases s)
  case Nil
  with assms show ?thesis by (simp add: DedupingIter_Nil)
next
  case (Cons x xs)
  with assms have e: "e \<in> set (DedupeIter_run eqFingerprint Identity mergeGroups x xs)"
    by (simp add: DedupingIter_Cons)
  from assms Cons have "sorted_wrt (<) (Refs e)"
    using DedupeIter_run_refs_sorted [OF _ e] by simp
  moreover from assms Cons DedupeIter_run_refs_set [OF _ e]
  have "set (Refs e) = (\<Union>g\<in>{g \<in> set s. Fingerprint g = Fingerprint e}. set (Refs g))"
    by simp
  ultimately show ?thesis
    by (intro unionRefs_unique) simp_all
qed

section \<open>Properties of mergeSeries\<close>

lemma lessFingerprint_eq: "lessFingerprint = (\<lambda>a b. Fingerprint a < Fingerprint b)"
  by (intro ext) (simp add: lessFingerprint_def)

lemma mergeSeries_mergedStream:
  "mergeSeries input buf = Inr (DedupingIter eqFingerprint Identity mergeGroups (mergedStream input))"
  by (simp add: mergeSeries_def mergedStream_def CollectInto_def)

lemma sorted_mergedStream: "sorted (map Fingerprint (mergedStream input))"
  unfolding mergedStream_def lessFingerprint_eq
  by (rule sorted_HeapIterator) (simp add: sortSlice_def)

lemma set_mergedStream: "set (mergedStream input) = (\<Union>inp\<in>set input. set inp)"
  by (simp add: mergedStream_def set_HeapIterator sortSlice_def)

lemma mergeSeries_strict_sorted:
  "\<exists>out. mergeSeries input buf = Inr out \<and> sorted_wrt (<) (map Fingerprint out)"
  by (simp add: mergeSeries_mergedStream DedupingIter_keys strict_sorted_remdups_adj
      sorted_mergedStream)

lemma mergeSeries_fingerprints:
  assumes "mergeSeries input buf = Inr out"
  shows "Fingerprint ` set out = Fingerprint ` (\<Union>inp\<in>set input. set inp)"
proof -
  from assms have "out = DedupingIter eqFingerprint Identity mergeGroups (mergedStream input)"
    by (simp add: mergeSeries_mergedStream)
  then have "map Fingerprint out = remdups_adj (map Fingerprint (mergedStream input))"
    by (simp only: DedupingIter_keys)
  then have "set (map Fingerprint out) = set (map Fingerprint (mergedStream input))"
    by simp
  then show ?thesis by (simp add: set_mergedStream)
qed

lemma mergeSeries_refs:
  assumes "\<forall>inp\<in>set input. \<forall>g\<in>set inp. sorted_wrt (<) (Refs g)"
    and "mergeSeries input buf = Inr out" and "e \<in> set out"
  shows "Refs e = unionRefs (contributing (Fingerprint e) input)"
proof -
  let ?s = "mergedStream input"
  from assms(2) have out: "out = DedupingIter eqFingerprint Identity mergeGroups ?s"
    by (simp add: mergeSeries_mergedStream)
  from assms(1) have "\<forall>g\<in>set ?s. sorted_wrt (<) (Refs g)"
    by (simp add: set_mergedStream)
  with sorted_mergedStream [of input] assms(3) out
  have "Refs e = unionRefs (filter (\<lambda>g. Fingerprint g = Fingerprint e) ?s)"
    by (intro DedupingIter_refs) simp_all
  also have "\<dots> = unionRefs (contributing (Fingerprint e) input)"
    by (rule unionRefs_cong) (simp add: contributing_def set_mergedStream)
  finally show ?thesis .
qed


text \<open>
  Claim C1. For every list of per-shard result lists, each sorted ascending by
  Fingerprint, \<open>mergeSeries\<close> returns a list that is strictly ascending by Fingerprint
  and has at most one entry for each Fingerprint. (\<open>mergeSeries\<close> sorts each list again
  at line 300, so the result has this form for unsorted lists as well, which is
  \<open>mergeSeries_strict_sorted\<close>.)
\<close>

theorem mergeSeries_sorted_strictly:
  assumes "\<forall>inp\<in>set input. sorted (map Fingerprint inp)"
  shows "\<exists>out. mergeSeries input buf = Inr out
           \<and> sorted_wrt (<) (map Fingerprint out) \<and> distinct (map Fingerprint out)"
  using mergeSeries_strict_sorted [of input buf] by (auto simp: strict_sorted_iff)

theorem mergeSeries_sorted_strictly_witness:
  "mergeSeries shards1 [] =
       Inr [\<lparr>Fingerprint = 5, Tenant = ''t'', Refs = [7]\<rparr>,
            \<lparr>Fingerprint = 10, Tenant = ''t'', Refs = [1, 2, 3]\<rparr>,
            \<lparr>Fingerprint = 20, Tenant = ''t'', Refs = [4]\<rparr>]
   \<and> (\<exists>out. mergeSeries shards1 [] = Inr out
          \<and> sorted_wrt (<) (map Fingerprint out) \<and> distinct (map Fingerprint out))"
proof -
  have h: "\<forall>inp\<in>set shards1. sorted (map Fingerprint inp)"
    by (simp add: shards1_def)
  have v: "mergeSeries shards1 [] =
       Inr [\<lparr>Fingerprint = 5, Tenant = ''t'', Refs = [7]\<rparr>,
            \<lparr>Fingerprint = 10, Tenant = ''t'', Refs = [1, 2, 3]\<rparr>,
            \<lparr>Fingerprint = 20, Tenant = ''t'', Refs = [4]\<rparr>]"
    by (simp add: shards1_def mergeSeries_eval)
  from v mergeSeries_sorted_strictly [OF h, of "[]"] show ?thesis by blast
qed

text \<open>
  Claim C2. When the per-shard lists are sorted ascending by Fingerprint and the chunk
  references of every entry are sorted and free of duplicates, every Fingerprint of the
  input, and so every one that occurs in more than one list, has exactly one entry in
  the output, and the chunk references of an output entry are the sorted,
  duplicate-free union of the chunk references of all input entries with its
  Fingerprint. In the witness, \<open>{10, [c1, c2]}\<close> and \<open>{10, [c2, c3]}\<close> from two shards
  merge into the one entry \<open>{10, [c1, c2, c3]}\<close>.
\<close>

theorem mergeSeries_union_of_refs:
  assumes "\<forall>inp\<in>set input. sorted (map Fingerprint inp)"
    and "\<forall>inp\<in>set input. \<forall>g\<in>set inp. sorted (Refs g) \<and> distinct (Refs g)"
  shows "\<exists>out. mergeSeries input buf = Inr out
           \<and> (\<forall>fp. contributing fp input \<noteq> [] \<longrightarrow> (\<exists>!e. e \<in> set out \<and> Fingerprint e = fp))
           \<and> (\<forall>e\<in>set out. Refs e = unionRefs (contributing (Fingerprint e) input))"
proof -
  from mergeSeries_strict_sorted [of input buf] obtain out
    where out: "mergeSeries input buf = Inr out"
      and srt: "sorted_wrt (<) (map Fingerprint out)" by blast
  from srt have "distinct (map Fingerprint out)" by (simp add: strict_sorted_iff)
  then have inj: "inj_on Fingerprint (set out)" by (simp add: distinct_map)
  have one: "\<exists>!e. e \<in> set out \<and> Fingerprint e = fp" if "contributing fp input \<noteq> []" for fp
  proof -
    from that obtain g where "g \<in> set (concat input)" "Fingerprint g = fp"
      unfolding contributing_def by (metis (mono_tags, lifting) filter_False)
    then have "fp \<in> Fingerprint ` (\<Union>inp\<in>set input. set inp)" by auto
    with mergeSeries_fingerprints [OF out] have "fp \<in> Fingerprint ` set out"
      by simp
    then obtain e where "e \<in> set out" "Fingerprint e = fp"
      by auto
    with inj show ?thesis by (auto dest: inj_onD)
  qed
  from assms(2) have "\<forall>inp\<in>set input. \<forall>g\<in>set inp. sorted_wrt (<) (Refs g)"
    by (simp add: strict_sorted_iff)
  then have "\<forall>e\<in>set out. Refs e = unionRefs (contributing (Fingerprint e) input)"
    using mergeSeries_refs [OF _ out] by blast
  with out one show ?thesis by blast
qed

theorem mergeSeries_union_of_refs_witness:
  "contributing 10 scenarioA \<noteq> []
   \<and> unionRefs (contributing 10 scenarioA) = [1, 2, 3]
   \<and> mergeSeries scenarioA [] = Inr [\<lparr>Fingerprint = 10, Tenant = ''t'', Refs = [1, 2, 3]\<rparr>]
   \<and> (\<exists>out. mergeSeries scenarioA [] = Inr out
          \<and> (\<forall>fp. contributing fp scenarioA \<noteq> [] \<longrightarrow> (\<exists>!e. e \<in> set out \<and> Fingerprint e = fp))
          \<and> (\<forall>e\<in>set out. Refs e = unionRefs (contributing (Fingerprint e) scenarioA)))"
proof -
  have h1: "\<forall>inp\<in>set scenarioA. sorted (map Fingerprint inp)"
    by (simp add: scenarioA_def)
  have h2: "\<forall>inp\<in>set scenarioA. \<forall>g\<in>set inp. sorted (Refs g) \<and> distinct (Refs g)"
    by (simp add: scenarioA_def)
  have c: "contributing 10 scenarioA \<noteq> []" "unionRefs (contributing 10 scenarioA) = [1, 2, 3]"
    by (simp_all add: scenarioA_def contributing_def unionRefs_def)
  have v: "mergeSeries scenarioA [] = Inr [\<lparr>Fingerprint = 10, Tenant = ''t'', Refs = [1, 2, 3]\<rparr>]"
    by (simp add: scenarioA_def mergeSeries_eval)
  from c v mergeSeries_union_of_refs [OF h1 h2, of "[]"] show ?thesis by blast
qed

text \<open>
  The merged stream of a list with itself, when its Fingerprints are strictly ascending,
  has every entry twice in a row, and the deduplication stage folds each pair back into
  the entry.
\<close>

lemma HeapIterator_empty2: "HeapIterator lt [[], []] = []" "HeapIterator lt [[]] = []"
  by (simp_all add: HeapIterator.simps)

lemma HeapIterator_twice_step:
  assumes "sorted_wrt (<) (map Fingerprint (g # L))"
  shows "HeapIterator lessFingerprint [g # L, g # L] = g # g # HeapIterator lessFingerprint [L, L]"
proof (cases L)
  case Nil
  then show ?thesis
    by (simp add: HeapIterator.simps [of _ "[[g], [g]]"] HeapIterator.simps [of _ "[[], [g]]"]
        HeapIterator_empty2 lessFingerprint_def)
next
  case (Cons h L')
  with assms have "Fingerprint g < Fingerprint h" by simp
  with Cons show ?thesis
    by (simp add: HeapIterator.simps [of _ "[g # h # L', g # h # L']"]
        HeapIterator.simps [of _ "[h # L', g # h # L']"] lessFingerprint_def)
qed

lemma HeapIterator_twice:
  "sorted_wrt (<) (map Fingerprint L) \<Longrightarrow> HeapIterator lessFingerprint [L, L] = twice L"
proof (induction L)
  case Nil
  show ?case by (simp add: HeapIterator_empty2 twice_def)
next
  case (Cons g L)
  from Cons.prems have "sorted_wrt (<) (map Fingerprint L)" by simp
  with Cons.IH HeapIterator_twice_step [OF Cons.prems] show ?case
    by (simp add: twice_def)
qed

lemma DedupingIter_twice:
  "sorted_wrt (<) (map Fingerprint L) \<Longrightarrow> \<forall>g\<in>set L. sorted (Refs g) \<Longrightarrow>
   DedupingIter eqFingerprint Identity mergeGroups (twice L) = (L :: 'r::linorder GroupedChunkRefs list)"
proof (induction L)
  case Nil
  show ?case by (simp add: twice_def DedupingIter_Nil)
next
  case (Cons g L)
  from Cons.prems have ih: "DedupingIter eqFingerprint Identity mergeGroups (twice L) = L"
    by (intro Cons.IH) simp_all
  from Cons.prems have g: "mergeGroups g g = g" by (simp add: mergeGroups_same)
  have tw: "twice (g # L) = g # g # twice L" by (simp add: twice_def)
  have "DedupeIter_run eqFingerprint Identity mergeGroups g (twice L) = g # L"
  proof (cases L)
    case Nil
    then show ?thesis by (simp add: twice_def)
  next
    case (Cons h L')
    with Cons.prems have ne: "Fingerprint h \<noteq> Fingerprint g" by auto
    have "twice L = h # h # twice L'" using Cons by (simp add: twice_def)
    with ne ih show ?thesis
      by (simp add: DedupeIter_run_Cons DedupingIter_Cons del: DedupeIter_run.simps)
  qed
  then show ?case
    unfolding tw DedupingIter_Cons by (simp add: DedupeIter_run_Cons g del: DedupeIter_run.simps)
qed

text \<open>
  Claim C8. Merging is idempotent: for a list \<open>L\<close> that is ascending by Fingerprint
  without repeated Fingerprints, and whose entries have sorted, duplicate-free chunk
  references, \<open>mergeSeries\<close> of \<open>[L, L]\<close> returns \<open>L\<close> itself: the same Fingerprints,
  each entry with its original chunk references.
\<close>

theorem mergeSeries_idempotent:
  assumes "sorted (map Fingerprint L)" "distinct (map Fingerprint L)"
    and "\<forall>g\<in>set L. sorted (Refs g) \<and> distinct (Refs g)"
  shows "mergeSeries [L, L] buf = Inr L"
proof -
  from assms(1,2) have s: "sorted_wrt (<) (map Fingerprint L)" by (simp add: strict_sorted_iff)
  from assms(1) have "sortSlice L = L" by (simp add: sortSlice_def sort_key_id_if_sorted)
  then have "mergedStream [L, L] = twice L"
    by (simp add: mergedStream_def HeapIterator_twice [OF s])
  with assms(3) show ?thesis
    by (simp add: mergeSeries_mergedStream DedupingIter_twice [OF s])
qed

theorem mergeSeries_idempotent_witness:
  "sorted (map Fingerprint series1) \<and> distinct (map Fingerprint series1)
   \<and> mergeSeries [series1, series1] [] = Inr series1"
proof -
  have h: "sorted (map Fingerprint series1)" "distinct (map Fingerprint series1)"
    "\<forall>g\<in>set series1. sorted (Refs g) \<and> distinct (Refs g)"
    by (simp_all add: series1_def)
  from h mergeSeries_idempotent [OF h, of "[]"] show ?thesis by blast
qed

section \<open>Properties of FilterChunks\<close>

lemmas FilterChunks_eval =
  FilterChunks_def fanOut_def ForEachJob_def filterJob_def doForAddrs_def
  filterCallback_def sortSlice_def upt_rec

text \<open>
  Claim C6. For the empty list of blocks \<open>FilterChunks\<close> returns a nil slice and a nil
  error at once: the record of effects is empty, so no address was looked up and no
  request was sent.
\<close>

theorem FilterChunks_empty: "FilterChunks c ctx tenant interval [] plan = ([], Inr [])"
  by (simp add: FilterChunks_def)

text \<open>
  Claim C9. The tenant argument has no influence: two calls that differ only in the
  tenant have the same record of effects, which holds every outbound request with its
  \<open>From\<close>, \<open>Through\<close>, \<open>Refs\<close>, \<open>Blocks\<close> and \<open>Plan\<close>, and the same result.
\<close>

theorem FilterChunks_tenant_unused:
  "FilterChunks c ctx tenant interval blks plan = FilterChunks c ctx tenant' interval blks plan"
  by (simp add: FilterChunks_def)

text \<open>
  Claim C10. With an empty list of candidate addresses \<open>doForAddrs\<close> returns nil and
  leaves the state as it was, for every callback: the callback is not invoked.
\<close>

theorem doForAddrs_no_addrs: "doForAddrs c [] fn s = (None, s)"
  by (simp add: doForAddrs_def)

lemma partitionLoop_fail:
  assumes "\<forall>p\<in>set pre. \<exists>a. pool_Addr c (block p) = Inr a" "pool_Addr c (block b) = Inl e"
  shows "partitionLoop c (pre @ b # post) pos servers tr =
           (tr @ map (\<lambda>b. AddrCall (block b)) (pre @ [b]),
            Inl (Wrapf e (''server address for block: '' @ block b)))"
  using assms
proof (induction pre arbitrary: pos servers tr)
  case Nil
  then show ?case by simp
next
  case (Cons p pre)
  from Cons.prems obtain a where a: "pool_Addr c (block p) = Inr a" by auto
  from Cons.prems have rest: "\<forall>p\<in>set pre. \<exists>a. pool_Addr c (block p) = Inr a" by simp
  show ?case
  proof (cases "pos a")
    case None
    with a Cons.IH [OF rest Cons.prems(2)] show ?thesis by simp
  next
    case (Some idx)
    with a Cons.IH [OF rest Cons.prems(2)] show ?thesis by simp
  qed
qed

text \<open>
  Claim C7. When the lookup of the owning address fails for some block, the call stops
  at the first such block \<open>b\<close>: it returns the lookup's error, wrapped by
  \<^verbatim>\<open>errors.Wrapf\<close> with the name of the block, and no result. The only effects are
  the address lookups for the blocks up to \<open>b\<close>; no client is looked up and no request
  is sent.
\<close>

theorem FilterChunks_routing_error:
  assumes "\<exists>b\<in>set blks. \<exists>e. pool_Addr c (block b) = Inl e"
  shows "\<exists>pre b post e. blks = pre @ b # post
           \<and> (\<forall>p\<in>set pre. \<exists>a. pool_Addr c (block p) = Inr a)
           \<and> pool_Addr c (block b) = Inl e
           \<and> FilterChunks c ctx tenant interval blks plan =
               (map (\<lambda>b. AddrCall (block b)) (pre @ [b]),
                Inl (Wrapf e (''server address for block: '' @ block b)))"
proof -
  from split_list_first_prop [OF assms] obtain pre b post
    where blks: "blks = pre @ b # post" and b: "\<exists>e. pool_Addr c (block b) = Inl e"
      and pre: "\<forall>p\<in>set pre. \<not> (\<exists>e. pool_Addr c (block p) = Inl e)" by blast
  from b obtain e where e: "pool_Addr c (block b) = Inl e" ..
  have ok: "\<forall>p\<in>set pre. \<exists>a. pool_Addr c (block p) = Inr a"
  proof
    fix p assume "p \<in> set pre"
    with pre have "\<not> (\<exists>e. pool_Addr c (block p) = Inl e)" ..
    then show "\<exists>a. pool_Addr c (block p) = Inr a" by (cases "pool_Addr c (block p)") auto
  qed
  have "FilterChunks c ctx tenant interval blks plan =
          (map (\<lambda>b. AddrCall (block b)) (pre @ [b]),
           Inl (Wrapf e (''server address for block: '' @ block b)))"
    unfolding FilterChunks_def blks partitionLoop_fail [OF ok e] by simp
  with blks ok e show ?thesis by blast
qed

theorem FilterChunks_routing_error_witness:
  "(\<exists>b\<in>set (blocksB @ [\<lparr>block = ''block-c'', series = []\<rparr>]). \<exists>e. pool_Addr gatewayB (block b) = Inl e)
   \<and> FilterChunks gatewayB None ''t'' intervalB (blocksB @ [\<lparr>block = ''block-c'', series = []\<rparr>]) () =
       ([AddrCall ''block-a'', AddrCall ''block-b'', AddrCall ''block-c''],
        Inl (Wrapf (Error ''no address'') ''server address for block: block-c''))
   \<and> (\<exists>pre b post e. blocksB @ [\<lparr>block = ''block-c'', series = []\<rparr>] = pre @ b # post
           \<and> (\<forall>p\<in>set pre. \<exists>a. pool_Addr gatewayB (block p) = Inr a)
           \<and> pool_Addr gatewayB (block b) = Inl e
           \<and> FilterChunks gatewayB None ''t'' intervalB (blocksB @ [\<lparr>block = ''block-c'', series = []\<rparr>]) () =
               (map (\<lambda>b. AddrCall (block b)) (pre @ [b]),
                Inl (Wrapf e (''server address for block: '' @ block b))))"
proof -
  have h: "\<exists>b\<in>set (blocksB @ [\<lparr>block = ''block-c'', series = []\<rparr>]). \<exists>e. pool_Addr gatewayB (block b) = Inl e"
    by (simp add: gatewayB_def blocksB_def)
  have v: "FilterChunks gatewayB None ''t'' intervalB (blocksB @ [\<lparr>block = ''block-c'', series = []\<rparr>]) () =
       ([AddrCall ''block-a'', AddrCall ''block-b'', AddrCall ''block-c''],
        Inl (Wrapf (Error ''no address'') ''server address for block: block-c''))"
    by (simp add: gatewayB_def blocksB_def FilterChunks_def)
  from h v FilterChunks_routing_error [OF h, of None "''t''" intervalB "()"] show ?thesis by blast
qed

text \<open>
  A job whose client lookup succeeds reports no error and fills its slot. When every
  shard has a client and the context is live, the slots hold the results of all shards.
\<close>

lemma filterJob_client:
  assumes "pool_GetClientFor c (addr (servers ! i)) = Inr cl"
  shows "\<exists>s'. filterJob c interval plan servers i s = (None, s')
           \<and> results s' = (results s)[i := shardResult c interval plan (servers ! i)]"
  using assms
  by (auto simp: filterJob_def doForAddrs_def filterCallback_def Let_def shardResult_def
      shardRequest_def split: sum.splits)

lemma ForEachJob_run_clients:
  assumes "\<forall>rs\<in>set servers. \<exists>cl. pool_GetClientFor c (addr rs) = Inr cl"
  shows "n - k = d \<Longrightarrow> n = length servers \<Longrightarrow> length (results s) = n \<Longrightarrow> k \<le> n \<Longrightarrow>
         \<exists>s'. ForEachJob_run [k..<n] (filterJob c interval plan servers) s = (None, s')
           \<and> results s' = take k (results s) @ map (shardResult c interval plan) (drop k servers)"
proof (induction d arbitrary: k s)
  case 0
  then show ?case by simp
next
  case (Suc d)
  then have k: "k < n" by simp
  with Suc.prems have "servers ! k \<in> set servers" by simp
  with assms obtain cl where "pool_GetClientFor c (addr (servers ! k)) = Inr cl" by blast
  from filterJob_client [OF this, of interval plan s] obtain s1
    where s1: "filterJob c interval plan servers k s = (None, s1)"
      and r1: "results s1 = (results s)[k := shardResult c interval plan (servers ! k)]"
    by blast
  from Suc.prems r1 have "n - Suc k = d" "length (results s1) = n" "Suc k \<le> n"
    using k by simp_all
  from Suc.IH [OF this(1) Suc.prems(2) this(2,3)] obtain s'
    where s': "ForEachJob_run [Suc k..<n] (filterJob c interval plan servers) s1 = (None, s')"
      and r': "results s' = take (Suc k) (results s1)
                 @ map (shardResult c interval plan) (drop (Suc k) servers)"
    by blast
  from k Suc.prems have "take (Suc k) (results s1)
      = take k (results s) @ [shardResult c interval plan (servers ! k)]"
    by (simp add: r1 take_Suc_conv_app_nth)
  moreover from k Suc.prems have "drop k servers = servers ! k # drop (Suc k) servers"
    by (simp add: Cons_nth_drop_Suc)
  ultimately have "results s' = take k (results s)
      @ map (shardResult c interval plan) (drop k servers)"
    using r' by simp
  moreover from k s1 s' have "ForEachJob_run [k..<n] (filterJob c interval plan servers) s = (None, s')"
    by (simp add: upt_conv_Cons)
  ultimately show ?case by blast
qed

lemma fanOut_clients:
  assumes "\<forall>rs\<in>set servers. \<exists>cl. pool_GetClientFor c (addr rs) = Inr cl"
  shows "\<exists>s'. fanOut c None interval plan servers tr = (None, s')
           \<and> results s' = map (shardResult c interval plan) servers"
proof (cases "length servers = 0")
  case True
  then show ?thesis by (simp add: fanOut_def ForEachJob_def)
next
  case False
  let ?s = "\<lparr>trace = tr, results = replicate (length servers) [], count = 0\<rparr>"
  have "\<exists>s'. ForEachJob_run [0..<length servers] (filterJob c interval plan servers) ?s = (None, s')
           \<and> results s' = take 0 (results ?s) @ map (shardResult c interval plan) (drop 0 servers)"
    by (rule ForEachJob_run_clients [OF assms]) simp_all
  with False show ?thesis by (simp add: fanOut_def ForEachJob_def)
qed

text \<open>
  When every address lookup and every client lookup succeeds and the context is live,
  the call returns the merge of the shards' results, whether the remote calls fail or
  not.
\<close>

lemma FilterChunks_clients:
  assumes "partitionLoop c blks Map.empty [] [] = (tr, Inr servers)"
    and "\<forall>rs\<in>set servers. \<exists>cl. pool_GetClientFor c (addr rs) = Inr cl"
  shows "snd (FilterChunks c None tenant interval blks plan) =
           mergeSeries (map (shardResult c interval plan) servers) []"
proof (cases "blks = []")
  case True
  with assms(1) have "servers = []" by simp
  with True show ?thesis
    by (simp add: FilterChunks_def mergeSeries_mergedStream mergedStream_def
        HeapIterator.simps DedupingIter_Nil)
next
  case False
  from fanOut_clients [OF assms(2), of interval plan tr] obtain s'
    where "fanOut c None interval plan servers tr = (None, s')"
      and "results s' = map (shardResult c interval plan) servers" by blast
  with False assms(1) show ?thesis by (simp add: FilterChunks_def)
qed

section \<open>Properties of FilterChunks on backing arrays\<close>

text \<open>
  For separate series slices the call over a memory and the call over lists agree. The
  lemmas below follow the call: appending, sorting and allocating keep separate slices
  separate and change only the slice they write.
\<close>

subsection \<open>Slices\<close>

lemma length_sliceVal: "wf_slice m s \<Longrightarrow> length (sliceVal m s) = sl_len s"
  by (auto simp: wf_slice_def sliceVal_def min_def)

lemma separate_Cons:
  "separate m (s # ss) \<longleftrightarrow> wf_slice m s \<and> sl_arr s \<notin> sl_arr ` set ss \<and> separate m ss"
  by (auto simp: separate_def)

lemma separate_Nil: "separate m []"
  by (simp add: separate_def)

lemma separate_wf: "separate m ss \<Longrightarrow> s \<in> set ss \<Longrightarrow> wf_slice m s"
  by (simp add: separate_def list_all_iff)

lemma separate_nth_neq:
  "separate m ss \<Longrightarrow> i < length ss \<Longrightarrow> j < length ss \<Longrightarrow> i \<noteq> j \<Longrightarrow> sl_arr (ss ! i) \<noteq> sl_arr (ss ! j)"
  by (auto simp: separate_def distinct_conv_nth)

lemma separate_remove: "separate m (A @ x # B) \<Longrightarrow> separate m (A @ B)"
  by (auto simp: separate_def)

lemma separate_take: "separate m ss \<Longrightarrow> separate m (take k ss)"
  by (auto simp: separate_def list_all_iff distinct_take take_map [symmetric] dest: in_set_takeD)

text \<open>A memory that keeps the length and the array lengths keeps slices well-formed.\<close>

lemma wf_slice_same_lengths:
  assumes "wf_slice m t" "length m \<le> length m'" "length (m ! sl_arr t) \<le> length (m' ! sl_arr t)"
  shows "wf_slice m' t"
  using assms by (simp add: wf_slice_def)

subsection \<open>append\<close>

lemma appendSlice_self:
  assumes "wf_slice m s" "appendSlice grow m s xs = (m', s')"
  shows "sliceVal m' s' = sliceVal m s @ xs" "wf_slice m' s'"
    "sl_arr s' = sl_arr s \<or> sl_arr s' = length m" "length m \<le> length m'"
proof -
  let ?cells = "m ! sl_arr s"
  let ?p = "sl_off s + sl_len s"
  from assms(1) have a: "sl_arr s < length m" and p: "?p \<le> length ?cells"
    and lc: "sl_len s \<le> sl_cap s"
    by (simp_all add: wf_slice_def)
  show "sliceVal m' s' = sliceVal m s @ xs"
  proof (cases "sl_len s + length xs \<le> sl_cap s")
    case True
    with assms(2) have m': "m' = m[sl_arr s := take ?p ?cells @ xs @ drop (?p + length xs) ?cells]"
      and s': "s' = s\<lparr>sl_len := sl_len s + length xs\<rparr>"
      by (simp_all add: appendSlice_def)
    have "drop (sl_off s) (take ?p ?cells) = take (sl_len s) (drop (sl_off s) ?cells)"
      by (simp add: drop_take)
    moreover have "length (take (sl_len s) (drop (sl_off s) ?cells)) = sl_len s"
      using p by simp
    ultimately show ?thesis
      using a p by (simp add: m' s' sliceVal_def)
  next
    case False
    with assms(2) show ?thesis
      using length_sliceVal [OF assms(1)] by (auto simp: appendSlice_def sliceVal_def)
  qed
  show "wf_slice m' s'"
  proof (cases "sl_len s + length xs \<le> sl_cap s")
    case True
    with assms(2) a p show ?thesis
      by (auto simp: appendSlice_def wf_slice_def)
  next
    case False
    with assms(2) show ?thesis
      using length_sliceVal [OF assms(1)] by (auto simp: appendSlice_def wf_slice_def)
  qed
  from assms(2) show "sl_arr s' = sl_arr s \<or> sl_arr s' = length m"
    by (auto simp: appendSlice_def split: if_splits)
  from assms(2) show "length m \<le> length m'"
    by (auto simp: appendSlice_def split: if_splits)
qed

lemma appendSlice_frame:
  assumes "wf_slice m s" "appendSlice grow m s xs = (m', s')" "wf_slice m t" "sl_arr t \<noteq> sl_arr s"
  shows "sliceVal m' t = sliceVal m t" "wf_slice m' t"
  using assms by (auto simp: appendSlice_def wf_slice_def sliceVal_def nth_append split: if_splits)

subsection \<open>sort in place\<close>

lemma length_sortSlice: "length (sortSlice xs) = length xs"
  by (simp add: sortSlice_def)

lemma sortSliceInPlace_lengths:
  assumes "wf_slice m s"
  shows "length (sortSliceInPlace m s) = length m"
    "length (sortSliceInPlace m s ! a) = length (m ! a)"
proof -
  show "length (sortSliceInPlace m s) = length m"
    by (simp add: sortSliceInPlace_def)
  from assms have "sl_arr s < length m" "sl_off s + sl_len s \<le> length (m ! sl_arr s)"
    by (simp_all add: wf_slice_def)
  then show "length (sortSliceInPlace m s ! a) = length (m ! a)"
    by (cases "a = sl_arr s")
       (simp_all add: sortSliceInPlace_def length_sortSlice sliceVal_def)
qed

lemma sortSliceInPlace_wf:
  "wf_slice m s \<Longrightarrow> wf_slice (sortSliceInPlace m s) t = wf_slice m t"
  by (simp add: wf_slice_def sortSliceInPlace_lengths)

lemma sortSliceInPlace_self:
  assumes "wf_slice m s"
  shows "sliceVal (sortSliceInPlace m s) s = sortSlice (sliceVal m s)"
proof -
  from assms have a: "sl_arr s < length m" and p: "sl_off s + sl_len s \<le> length (m ! sl_arr s)"
    by (simp_all add: wf_slice_def)
  have "length (sortSlice (sliceVal m s)) = sl_len s"
    using length_sliceVal [OF assms] by (simp add: length_sortSlice)
  with a p show ?thesis
    by (simp add: sortSliceInPlace_def sliceVal_def [of "m[_ := _]"])
qed

lemma sortSliceInPlace_frame:
  "sl_arr t \<noteq> sl_arr s \<Longrightarrow> sliceVal (sortSliceInPlace m s) t = sliceVal m t"
  by (simp add: sortSliceInPlace_def sliceVal_def)

lemma sortSliceInPlace_separate:
  "wf_slice m s \<Longrightarrow> separate (sortSliceInPlace m s) ss = separate m ss"
  by (simp add: separate_def sortSliceInPlace_wf list_all_iff)

subsection \<open>a new array\<close>

lemma newSlice_self:
  "newSlice m xs = (m', r) \<Longrightarrow> sliceVal m' r = xs \<and> wf_slice m' r \<and> sl_arr r = length m"
  by (auto simp: newSlice_def sliceVal_def wf_slice_def)

lemma newSlice_frame:
  "newSlice m xs = (m', r) \<Longrightarrow> wf_slice m t \<Longrightarrow> sliceVal m' t = sliceVal m t \<and> wf_slice m' t"
  by (auto simp: newSlice_def sliceVal_def wf_slice_def nth_append)

subsection \<open>the sorts of mergeSeries\<close>

lemma foldl_sortSliceInPlace:
  "separate m (ps @ ss) \<Longrightarrow>
     (\<forall>p\<in>set ps. sliceVal (foldl sortSliceInPlace m ss) p = sliceVal m p)
     \<and> map (sliceVal (foldl sortSliceInPlace m ss)) ss = map (\<lambda>s. sortSlice (sliceVal m s)) ss"
proof (induction ss arbitrary: m ps)
  case Nil
  then show ?case by simp
next
  case (Cons s ss)
  let ?m1 = "sortSliceInPlace m s"
  from Cons.prems have wf: "wf_slice m s" by (auto simp: separate_def)
  from Cons.prems have sep1: "separate ?m1 ((ps @ [s]) @ ss)"
    by (simp add: sortSliceInPlace_separate [OF wf])
  from Cons.prems have "distinct (map sl_arr (ps @ s # ss))"
    by (simp add: separate_def)
  then have "sl_arr s \<notin> sl_arr ` (set ps \<union> set ss)"
    by auto
  then have ne: "\<forall>t\<in>set ps \<union> set ss. sl_arr t \<noteq> sl_arr s"
    by (metis imageI)
  from Cons.IH [OF sep1]
  have ih1: "\<forall>p\<in>set (ps @ [s]). sliceVal (foldl sortSliceInPlace ?m1 ss) p = sliceVal ?m1 p"
    and ih2: "map (sliceVal (foldl sortSliceInPlace ?m1 ss)) ss
                = map (\<lambda>s. sortSlice (sliceVal ?m1 s)) ss"
    by blast+
  from ih1 ne have "\<forall>p\<in>set ps. sliceVal (foldl sortSliceInPlace ?m1 ss) p = sliceVal m p"
    by (simp add: sortSliceInPlace_frame)
  moreover from ih1 have "sliceVal (foldl sortSliceInPlace ?m1 ss) s = sortSlice (sliceVal m s)"
    by (simp add: sortSliceInPlace_self [OF wf])
  moreover from ih2 ne have "map (sliceVal (foldl sortSliceInPlace ?m1 ss)) ss
                = map (\<lambda>s. sortSlice (sliceVal m s)) ss"
    by (simp add: sortSliceInPlace_frame)
  ultimately show ?case by simp
qed

lemma mergeSeries_mem_separate:
  assumes "separate m input"
  shows "fst (mergeSeries_mem m input buf) = mergeSeries (map (sliceVal m) input) buf"
proof -
  from foldl_sortSliceInPlace [of m "[]" input] assms
  have h: "map (sliceVal (foldl sortSliceInPlace m input)) input
          = map (\<lambda>s. sortSlice (sliceVal m s)) input"
    by simp
  show ?thesis
    unfolding mergeSeries_mem_def mergeSeries_def Let_def h map_map comp_def by simp
qed

lemma appendSlice_separate_update:
  assumes "separate m L" "i < length L" "appendSlice grow m (L ! i) xs = (m1, g1)"
  shows "separate m1 (L[i := g1])"
    and "\<forall>j<length L. j \<noteq> i \<longrightarrow> sliceVal m1 (L ! j) = sliceVal m (L ! j)"
    and "sliceVal m1 g1 = sliceVal m (L ! i) @ xs"
proof -
  from assms(1,2) have wfi: "wf_slice m (L ! i)"
    by (simp add: separate_wf)
  note self = appendSlice_self [OF wfi assms(3)]
  have other: "sliceVal m1 (L ! j) = sliceVal m (L ! j) \<and> wf_slice m1 (L ! j)"
    if "j < length L" "j \<noteq> i" for j
  proof -
    from assms(1) that have "wf_slice m (L ! j)" by (simp add: separate_wf)
    moreover from assms(1,2) that have "sl_arr (L ! j) \<noteq> sl_arr (L ! i)"
      by (simp add: separate_nth_neq)
    ultimately show ?thesis
      using appendSlice_frame [OF wfi assms(3)] by blast
  qed
  then show "\<forall>j<length L. j \<noteq> i \<longrightarrow> sliceVal m1 (L ! j) = sliceVal m (L ! j)"
    by blast
  show "sliceVal m1 g1 = sliceVal m (L ! i) @ xs"
    by (rule self(1))
  have wf1: "list_all (wf_slice m1) (L[i := g1])"
    unfolding list_all_length
  proof (intro allI impI)
    fix j assume "j < length (L[i := g1])"
    then show "wf_slice m1 (L[i := g1] ! j)"
      using other [of j] self(2) assms(2) by (cases "j = i") simp_all
  qed
  have "distinct (map sl_arr (L[i := g1]))"
    unfolding distinct_conv_nth
  proof (intro allI impI)
    fix j k
    assume j: "j < length (map sl_arr (L[i := g1]))"
      and k: "k < length (map sl_arr (L[i := g1]))" and jk: "j \<noteq> k"
    have lt: "sl_arr (L ! n) < length m" if "n < length L" for n
      using assms(1) that separate_wf [of m L "L ! n"] by (simp add: wf_slice_def)
    have old: "sl_arr (L ! a) \<noteq> sl_arr (L ! b)" if "a < length L" "b < length L" "a \<noteq> b" for a b
      using assms(1) that by (simp add: separate_nth_neq)
    from self(3) show "map sl_arr (L[i := g1]) ! j \<noteq> map sl_arr (L[i := g1]) ! k"
    proof
      assume same: "sl_arr g1 = sl_arr (L ! i)"
      show ?thesis
      proof (cases "j = i")
        case True
        with j k jk same old [of i k] assms(2) show ?thesis by simp
      next
        case False
        with j k jk same old [of j k] old [of j i] assms(2) show ?thesis
          by (cases "k = i") simp_all
      qed
    next
      assume fresh: "sl_arr g1 = length m"
      show ?thesis
      proof (cases "j = i")
        case True
        with j k jk fresh lt [of k] show ?thesis by simp
      next
        case False
        with j k jk fresh lt [of j] old [of j k] show ?thesis
          by (cases "k = i") simp_all
      qed
    qed
  qed
  with wf1 show "separate m1 (L[i := g1])"
    by (simp add: separate_def)
qed

lemma partitionLoop_mem_separate:
  assumes "separate m (map groups_mem servers @ map series_mem bs)"
    and "\<forall>a idx. pos a = Some idx \<longrightarrow> idx < length servers"
  shows "\<exists>tr' r m'. partitionLoop_mem grow c bs pos servers tr m = (tr', r, m')
           \<and> partitionLoop c (map (readBlock m) bs) pos (map (readServer m) servers) tr
               = (tr', map_sum id (map (readServer m')) r)
           \<and> (\<forall>servers'. r = Inr servers' \<longrightarrow> separate m' (map groups_mem servers'))"
  using assms
proof (induction bs arbitrary: pos servers tr m)
  case Nil
  then show ?case by simp
next
  case (Cons b bs)
  show ?case
  proof (cases "pool_Addr c (block_mem b)")
    case (Inl err)
    then show ?thesis by (simp add: readBlock_def)
  next
    case (Inr a)
    show ?thesis
    proof (cases "pos a")
      case None
      let ?servers1 = "servers @ [\<lparr>addr_mem = a, blocks_mem = [block_mem b], groups_mem = series_mem b\<rparr>]"
      from Cons.prems(1) have sep: "separate m (map groups_mem ?servers1 @ map series_mem bs)"
        by simp
      from Cons.prems(2) have pos: "\<forall>a' idx. (pos(a \<mapsto> length servers)) a' = Some idx \<longrightarrow> idx < length ?servers1"
        by (auto simp: less_Suc_eq)
      from Cons.IH [OF sep pos, of "tr @ [AddrCall (block_mem b)]"] obtain tr' r m'
        where ih: "partitionLoop_mem grow c bs (pos(a \<mapsto> length servers)) ?servers1
                     (tr @ [AddrCall (block_mem b)]) m = (tr', r, m')"
          "partitionLoop c (map (readBlock m) bs) (pos(a \<mapsto> length servers))
             (map (readServer m) ?servers1) (tr @ [AddrCall (block_mem b)])
             = (tr', map_sum id (map (readServer m')) r)"
          "\<forall>servers'. r = Inr servers' \<longrightarrow> separate m' (map groups_mem servers')"
        by blast
      have rb: "block (readBlock m b) = block_mem b" "series (readBlock m b) = sliceVal m (series_mem b)"
        by (simp_all add: readBlock_def)
      have rs: "map (readServer m) ?servers1 = map (readServer m) servers
                  @ [\<lparr>addr = a, blocks = [block_mem b], groups = sliceVal m (series_mem b)\<rparr>]"
        by (simp add: readServer_def)
      have "partitionLoop_mem grow c (b # bs) pos servers tr m = (tr', r, m')"
        unfolding partitionLoop_mem.simps Inr None sum.case option.case by (rule ih(1))
      moreover have "partitionLoop c (map (readBlock m) (b # bs)) pos (map (readServer m) servers) tr
                       = (tr', map_sum id (map (readServer m')) r)"
        unfolding list.map partitionLoop.simps rb Inr None sum.case option.case length_map
        using ih(2) unfolding rs .
      ultimately show ?thesis using ih(3) by blast
    next
      case (Some idx)
      with Cons.prems(2) have idx: "idx < length servers" by blast
      let ?L = "map groups_mem servers @ series_mem b # map series_mem bs"
      let ?xs = "sliceVal m (series_mem b)"
      obtain m1 g1 where app: "appendSlice grow m (groups_mem (servers ! idx)) ?xs = (m1, g1)"
        by (cases "appendSlice grow m (groups_mem (servers ! idx)) ?xs")
      let ?servers1 = "servers[idx := (servers ! idx)
                         \<lparr>groups_mem := g1, blocks_mem := blocks_mem (servers ! idx) @ [block_mem b]\<rparr>]"
      from idx have Li: "?L ! idx = groups_mem (servers ! idx)" by (simp add: nth_append)
      from idx have iL: "idx < length ?L" by simp
      from Cons.prems(1) have sepL: "separate m ?L" by simp
      note upd = appendSlice_separate_update [OF sepL iL app [folded Li]]
      have gs1: "map groups_mem ?servers1 = (map groups_mem servers)[idx := g1]"
        by (simp add: map_update)
      from upd(1) idx have "separate m1 ((map groups_mem servers)[idx := g1] @ series_mem b # map series_mem bs)"
        by (simp add: list_update_append)
      then have sep1: "separate m1 (map groups_mem ?servers1 @ map series_mem bs)"
        unfolding gs1 by (rule separate_remove)
      from Cons.prems(2) have pos1: "\<forall>a idx. pos a = Some idx \<longrightarrow> idx < length ?servers1"
        by simp
      have frame_servers: "sliceVal m1 (groups_mem (servers ! j)) = sliceVal m (groups_mem (servers ! j))"
        if "j < length servers" "j \<noteq> idx" for j
        using upd(2) that by (auto simp: nth_append dest!: spec [of _ j])
      have frame_blocks: "sliceVal m1 (series_mem b') = sliceVal m (series_mem b')"
        if "b' \<in> set bs" for b'
      proof -
        from that obtain n where n: "n < length bs" "bs ! n = b'"
          by (auto simp: in_set_conv_nth)
        let ?j = "length servers + Suc n"
        from n idx have "?j < length ?L" "?j \<noteq> idx" "?L ! ?j = series_mem b'"
          by (simp_all add: nth_append)
        with upd(2) show ?thesis by metis
      qed
      then have blocks1: "map (readBlock m1) bs = map (readBlock m) bs"
        by (simp add: readBlock_def)
      have servers1: "map (readServer m1) ?servers1
          = (map (readServer m) servers)[idx := (map (readServer m) servers ! idx)
              \<lparr>groups := groups (map (readServer m) servers ! idx) @ series (readBlock m b),
               blocks := blocks (map (readServer m) servers ! idx) @ [block (readBlock m b)]\<rparr>]"
      proof (rule nth_equalityI)
        show "length (map (readServer m1) ?servers1) = length ((map (readServer m) servers)[idx := (map (readServer m) servers ! idx)
              \<lparr>groups := groups (map (readServer m) servers ! idx) @ series (readBlock m b),
               blocks := blocks (map (readServer m) servers ! idx) @ [block (readBlock m b)]\<rparr>])"
          by simp
      next
        fix j assume "j < length (map (readServer m1) ?servers1)"
        then have j: "j < length servers" by simp
        show "map (readServer m1) ?servers1 ! j = (map (readServer m) servers)[idx := (map (readServer m) servers ! idx)
              \<lparr>groups := groups (map (readServer m) servers ! idx) @ series (readBlock m b),
               blocks := blocks (map (readServer m) servers ! idx) @ [block (readBlock m b)]\<rparr>] ! j"
        proof (cases "j = idx")
          case True
          with j upd(3) Li show ?thesis
            by (simp add: readServer_def readBlock_def)
        next
          case False
          with j frame_servers [of j] show ?thesis
            by (simp add: readServer_def)
        qed
      qed
      from Cons.IH [OF sep1 pos1, of "tr @ [AddrCall (block_mem b)]"] obtain tr' r m'
        where ih: "partitionLoop_mem grow c bs pos ?servers1
                     (tr @ [AddrCall (block_mem b)]) m1 = (tr', r, m')"
          "partitionLoop c (map (readBlock m1) bs) pos
             (map (readServer m1) ?servers1) (tr @ [AddrCall (block_mem b)])
             = (tr', map_sum id (map (readServer m')) r)"
          "\<forall>servers'. r = Inr servers' \<longrightarrow> separate m' (map groups_mem servers')"
        by blast
      have rb: "block (readBlock m b) = block_mem b"
        by (simp add: readBlock_def)
      have "partitionLoop_mem grow c (b # bs) pos servers tr m = (tr', r, m')"
        unfolding partitionLoop_mem.simps Inr Some sum.case option.case app prod.case
        by (rule ih(1))
      moreover have "partitionLoop c (map (readBlock m) (b # bs)) pos (map (readServer m) servers) tr
                       = (tr', map_sum id (map (readServer m')) r)"
        unfolding list.map partitionLoop.simps Inr Some sum.case option.case rb
        using ih(2) unfolding blocks1 servers1 rb .
      ultimately show ?thesis using ih(3) by blast
    qed
  qed
qed

subsection \<open>The fan-out\<close>

lemma sliceVal_empty: "sl_len t = 0 \<Longrightarrow> sliceVal m t = []"
  by (simp add: sliceVal_def)

lemma newSlice_separate:
  "newSlice m xs = (m', r) \<Longrightarrow> separate m ss \<Longrightarrow> separate m' ss"
  by (auto simp: separate_def list_all_iff dest: newSlice_frame)

lemma fan_step:
  assumes inv: "fan_inv gs k m slots" and k: "k < length gs"
    and frame: "\<And>t. wf_slice m t \<Longrightarrow> sl_arr t \<noteq> sl_arr (gs ! k) \<Longrightarrow>
                  sliceVal m' t = sliceVal m t \<and> wf_slice m' t"
    and sep': "separate m' gs"
    and wfr: "wf_slice m' r"
    and r: "r = gs ! k \<or> (\<forall>t. wf_slice m t \<longrightarrow> sl_arr t \<noteq> sl_arr r)"
  shows "fan_inv gs (Suc k) m' (slots[k := r])"
    and "\<forall>j<length gs. j \<noteq> k \<longrightarrow> sliceVal m' (slots ! j) = sliceVal m (slots ! j)"
    and "\<forall>k'<length gs. k < k' \<longrightarrow> sliceVal m' (gs ! k') = sliceVal m (gs ! k')"
proof -
  from inv have len: "length slots = length gs" and sep: "separate m gs"
    and sepS: "separate m (take k slots)"
    and disj: "\<forall>j<k. \<forall>k'<length gs. k \<le> k' \<longrightarrow> sl_arr (slots ! j) \<noteq> sl_arr (gs ! k')"
    and unset: "\<forall>j<length gs. k \<le> j \<longrightarrow> sl_len (slots ! j) = 0"
    by (simp_all add: fan_inv_def)
  have wfS: "wf_slice m (slots ! j)" if "j < k" for j
    using sepS that k len separate_wf [of m "take k slots" "slots ! j"]
    by (simp add: in_set_conv_nth) (metis length_take min.absorb2 nat_less_le nth_take)
  have wfG: "wf_slice m (gs ! n)" if "n < length gs" for n
    using sep that by (simp add: separate_wf)
  have old: "sliceVal m' (slots ! j) = sliceVal m (slots ! j) \<and> wf_slice m' (slots ! j)"
    if "j < k" for j
    using frame [OF wfS [OF that]] disj that k by simp
  show vals: "\<forall>j<length gs. j \<noteq> k \<longrightarrow> sliceVal m' (slots ! j) = sliceVal m (slots ! j)"
  proof (intro allI impI)
    fix j assume j: "j < length gs" "j \<noteq> k"
    show "sliceVal m' (slots ! j) = sliceVal m (slots ! j)"
    proof (cases "j < k")
      case True
      then show ?thesis using old by simp
    next
      case False
      with j unset have "sl_len (slots ! j) = 0" by simp
      then show ?thesis by (simp add: sliceVal_empty)
    qed
  qed
  show "\<forall>k'<length gs. k < k' \<longrightarrow> sliceVal m' (gs ! k') = sliceVal m (gs ! k')"
  proof (intro allI impI)
    fix k' assume k': "k' < length gs" "k < k'"
    with sep k have "sl_arr (gs ! k') \<noteq> sl_arr (gs ! k)"
      by (simp add: separate_nth_neq)
    with frame [OF wfG [OF k'(1)]] show "sliceVal m' (gs ! k') = sliceVal m (gs ! k')"
      by simp
  qed
  have rnew: "sl_arr r \<noteq> sl_arr (slots ! j)" if "j < k" for j
    using r
  proof
    assume "r = gs ! k"
    with disj that k show ?thesis by (metis order_refl)
  next
    assume "\<forall>t. wf_slice m t \<longrightarrow> sl_arr t \<noteq> sl_arr r"
    with wfS [OF that] show ?thesis by metis
  qed
  have tk: "take (Suc k) (slots[k := r]) = take k slots @ [r]"
    using k len by (simp add: take_Suc_conv_app_nth)
  have "list_all (wf_slice m') (take k slots)"
    unfolding list_all_length using old k len by simp
  moreover have "distinct (map sl_arr (take k slots))"
    using sepS by (simp add: separate_def)
  moreover have "sl_arr r \<notin> sl_arr ` set (take k slots)"
  proof
    assume "sl_arr r \<in> sl_arr ` set (take k slots)"
    then obtain t where "t \<in> set (take k slots)" "sl_arr t = sl_arr r" by auto
    then obtain j where "j < k" "slots ! j = t"
      using k len by (auto simp: in_set_conv_nth)
    with rnew [of j] \<open>sl_arr t = sl_arr r\<close> show False by simp
  qed
  ultimately have sepS': "separate m' (take (Suc k) (slots[k := r]))"
    unfolding tk using wfr by (simp add: separate_def)
  have disj': "\<forall>j<Suc k. \<forall>k'<length gs. Suc k \<le> k' \<longrightarrow>
                 sl_arr ((slots[k := r]) ! j) \<noteq> sl_arr (gs ! k')"
  proof (intro allI impI)
    fix j k' assume j: "j < Suc k" and k': "k' < length gs" "Suc k \<le> k'"
    show "sl_arr ((slots[k := r]) ! j) \<noteq> sl_arr (gs ! k')"
    proof (cases "j = k")
      case True
      from r have "sl_arr r \<noteq> sl_arr (gs ! k')"
      proof
        assume "r = gs ! k"
        with sep k k' show ?thesis by (simp add: separate_nth_neq)
      next
        assume "\<forall>t. wf_slice m t \<longrightarrow> sl_arr t \<noteq> sl_arr r"
        with wfG [OF k'(1)] show ?thesis by metis
      qed
      with True k len show ?thesis by simp
    next
      case False
      with j have "j < k" by simp
      with disj k' False show ?thesis by simp
    qed
  qed
  have unset': "\<forall>j<length gs. Suc k \<le> j \<longrightarrow> sl_len ((slots[k := r]) ! j) = 0"
    using unset by simp
  from len sep' sepS' disj' unset' show "fan_inv gs (Suc k) m' (slots[k := r])"
    by (simp add: fan_inv_def)
qed

lemmas filterJob_mem_defs =
  filterJob_mem_def doForAddrs_mem_def filterCallback_mem_def Let_def

lemmas filterJob_defs =
  filterJob_def doForAddrs_def filterCallback_def Let_def

lemma filterJob_mem_sim:
  assumes inv: "fan_inv (map groups_mem serversM) k (mem s) (results_mem s)"
    and rel: "fan_rel s sv" and k: "k < length serversM"
    and len: "length serversV = length serversM"
    and pend: "\<forall>k'<length serversM. k \<le> k' \<longrightarrow> readServer (mem s) (serversM ! k') = serversV ! k'"
  shows "\<exists>e s' sv'. filterJob_mem c interval plan serversM k s = (e, s')
           \<and> filterJob c interval plan serversV k sv = (e, sv')
           \<and> trace sv' = trace_mem s'
           \<and> (e = None \<longrightarrow>
                fan_inv (map groups_mem serversM) (Suc k) (mem s') (results_mem s')
                \<and> fan_rel s' sv'
                \<and> (\<forall>k'<length serversM. Suc k \<le> k' \<longrightarrow>
                      readServer (mem s') (serversM ! k') = serversV ! k'))"
proof -
  let ?gs = "map groups_mem serversM"
  let ?rs = "serversM ! k"
  let ?g = "groups_mem ?rs"
  let ?m = "mem s"
  let ?m1 = "sortSliceInPlace ?m ?g"
  let ?J = "filterJob_mem c interval plan serversM k s"
  let ?Jv = "filterJob c interval plan serversV k sv"
  from k have gk: "?gs ! k = ?g" and kg: "k < length ?gs" by simp_all
  from inv have sep: "separate ?m ?gs" and slen: "length (results_mem s) = length serversM"
    by (simp_all add: fan_inv_def)
  from sep k have wfg: "wf_slice ?m ?g" by (simp add: separate_wf)
  from pend k have rsv: "serversV ! k = readServer ?m ?rs" by simp
  from rel have tr: "trace sv = trace_mem s" and cnt: "count sv = count_mem s"
    and res: "results sv = map (sliceVal ?m) (results_mem s)"
    by (simp_all add: fan_rel_def)
  have sorted_val: "sortSlice (groups (serversV ! k)) = sliceVal ?m1 ?g"
    by (simp add: rsv readServer_def sortSliceInPlace_self [OF wfg])
  have addr: "addr (serversV ! k) = addr_mem ?rs" and blocks: "blocks (serversV ! k) = blocks_mem ?rs"
    by (simp_all add: rsv readServer_def)
  have frame1: "sliceVal ?m1 t = sliceVal ?m t \<and> wf_slice ?m1 t"
    if "wf_slice ?m t" "sl_arr t \<noteq> sl_arr (?gs ! k)" for t
    using that by (simp add: gk sortSliceInPlace_frame sortSliceInPlace_wf [OF wfg])
  have sep1: "separate ?m1 ?gs"
    using sep by (simp add: sortSliceInPlace_separate [OF wfg])
  have wfg1: "wf_slice ?m1 ?g"
    using wfg by (simp add: sortSliceInPlace_wf [OF wfg])
  have pend_step: "\<forall>k'<length serversM. Suc k \<le> k' \<longrightarrow> readServer m' (serversM ! k') = serversV ! k'"
    if "\<forall>k'<length ?gs. k < k' \<longrightarrow> sliceVal m' (?gs ! k') = sliceVal ?m (?gs ! k')" for m'
  proof (intro allI impI)
    fix k' assume k': "k' < length serversM" "Suc k \<le> k'"
    with that have "sliceVal m' (groups_mem (serversM ! k')) = sliceVal ?m (groups_mem (serversM ! k'))"
      by simp
    moreover from pend k' have "readServer ?m (serversM ! k') = serversV ! k'" by simp
    ultimately show "readServer m' (serversM ! k') = serversV ! k'"
      by (simp add: readServer_def)
  qed
  have rel_step: "(map (sliceVal ?m) (results_mem s))[k := sliceVal m' r]
                   = map (sliceVal m') ((results_mem s)[k := r])"
    if "\<forall>j<length ?gs. j \<noteq> k \<longrightarrow> sliceVal m' (results_mem s ! j) = sliceVal ?m (results_mem s ! j)"
    for m' r
  proof (rule nth_equalityI)
    show "length ((map (sliceVal ?m) (results_mem s))[k := sliceVal m' r])
            = length (map (sliceVal m') ((results_mem s)[k := r]))" by simp
  next
    fix j assume "j < length ((map (sliceVal ?m) (results_mem s))[k := sliceVal m' r])"
    then have j: "j < length serversM" by (simp add: slen)
    with that slen show "(map (sliceVal ?m) (results_mem s))[k := sliceVal m' r] ! j
            = map (sliceVal m') ((results_mem s)[k := r]) ! j"
      by (cases "j = k") simp_all
  qed
  show ?thesis
  proof (cases "pool_GetClientFor c (addr_mem ?rs)")
    case (Inl e)
    have "fst ?J = Some e" "fst ?Jv = Some e" "trace (snd ?Jv) = trace_mem (snd ?J)"
      by (simp_all add: filterJob_mem_defs filterJob_defs Inl addr tr)
    then show ?thesis
      by (metis option.distinct(1) prod.collapse)
  next
    case (Inr cl)
    let ?req = "\<lparr>req_From = Start interval, req_Through = End interval,
                 req_Refs = sliceVal ?m1 ?g, req_Blocks = blocks_mem ?rs, req_Plan = plan\<rparr>"
    show ?thesis
    proof (cases "client_FilterChunkRefs c cl ?req")
      case rpc: (Inl err)
      have J: "fst ?J = None" "mem (snd ?J) = ?m1" "results_mem (snd ?J) = (results_mem s)[k := ?g]"
        "count_mem (snd ?J) = count_mem s + int (sl_len ?g)"
        using k slen by (simp_all add: filterJob_mem_defs Inr rpc)
      have Jv: "fst ?Jv = None" "results (snd ?Jv) = (results sv)[k := sliceVal ?m1 ?g]"
        "count (snd ?Jv) = count sv + int (length (sliceVal ?m1 ?g))"
        "trace (snd ?Jv) = trace_mem (snd ?J)"
        using k slen len res
        by (simp_all add: filterJob_mem_defs filterJob_defs Inr rpc addr blocks sorted_val tr)
      note step = fan_step [OF inv kg frame1 sep1, of ?g, unfolded gk, OF _ _ wfg1]
      have inv': "fan_inv ?gs (Suc k) ?m1 ((results_mem s)[k := ?g])"
        and vals: "\<forall>j<length ?gs. j \<noteq> k \<longrightarrow> sliceVal ?m1 (results_mem s ! j) = sliceVal ?m (results_mem s ! j)"
        and pendv: "\<forall>k'<length ?gs. k < k' \<longrightarrow> sliceVal ?m1 (?gs ! k') = sliceVal ?m (?gs ! k')"
        using step by (simp_all add: gk)
      have "fan_rel (snd ?J) (snd ?Jv)"
        unfolding fan_rel_def J Jv res
        using rel_step [OF vals, of ?g] cnt length_sliceVal [OF wfg1] Jv(4) by simp
      with inv' pend_step [OF pendv] J Jv show ?thesis
        by (metis prod.collapse)
    next
      case rpc: (Inr resp)
      obtain m2 r where new: "newSlice ?m1 resp = (m2, r)"
        by (cases "newSlice ?m1 resp")
      note nself = newSlice_self [OF new]
      have J: "fst ?J = None" "mem (snd ?J) = m2" "results_mem (snd ?J) = (results_mem s)[k := r]"
        "count_mem (snd ?J) = count_mem s + int (sl_len r)"
        using k slen by (simp_all add: filterJob_mem_defs Inr rpc new)
      have Jv: "fst ?Jv = None" "results (snd ?Jv) = (results sv)[k := resp]"
        "count (snd ?Jv) = count sv + int (length resp)"
        "trace (snd ?Jv) = trace_mem (snd ?J)"
        using k slen len res
        by (simp_all add: filterJob_mem_defs filterJob_defs Inr rpc new addr blocks sorted_val tr)
      have frame2: "sliceVal m2 t = sliceVal ?m t \<and> wf_slice m2 t"
        if "wf_slice ?m t" "sl_arr t \<noteq> sl_arr (?gs ! k)" for t
        using frame1 [OF that] newSlice_frame [OF new, of t] by simp
      have sep2: "separate m2 ?gs"
        using sep1 new by (rule newSlice_separate [rotated])
      have fresh: "\<forall>t. wf_slice ?m t \<longrightarrow> sl_arr t \<noteq> sl_arr r"
        using nself by (simp add: wf_slice_def sortSliceInPlace_lengths [OF wfg])
      from nself have wfr: "wf_slice m2 r" by simp
      note step = fan_step [OF inv kg frame2 sep2 wfr, OF _ _ disjI2 [OF fresh]]
      have inv': "fan_inv ?gs (Suc k) m2 ((results_mem s)[k := r])"
        and vals: "\<forall>j<length ?gs. j \<noteq> k \<longrightarrow> sliceVal m2 (results_mem s ! j) = sliceVal ?m (results_mem s ! j)"
        and pendv: "\<forall>k'<length ?gs. k < k' \<longrightarrow> sliceVal m2 (?gs ! k') = sliceVal ?m (?gs ! k')"
        using step by simp_all
      have "fan_rel (snd ?J) (snd ?Jv)"
        unfolding fan_rel_def J Jv res
        using rel_step [OF vals, of r] cnt nself length_sliceVal [OF wfr] Jv(4) by auto
      with inv' pend_step [OF pendv] J Jv show ?thesis
        by (metis prod.collapse)
    qed
  qed
qed

lemma ForEachJob_run_mem_sim:
  assumes n: "n = length serversM" and lenV: "length serversV = length serversM"
  shows "n - k = d \<Longrightarrow> k \<le> n \<Longrightarrow>
         fan_inv (map groups_mem serversM) k (mem s) (results_mem s) \<Longrightarrow> fan_rel s sv \<Longrightarrow>
         (\<forall>k'<length serversM. k \<le> k' \<longrightarrow> readServer (mem s) (serversM ! k') = serversV ! k') \<Longrightarrow>
         \<exists>e s' sv'. ForEachJob_run [k..<n] (filterJob_mem c interval plan serversM) s = (e, s')
           \<and> ForEachJob_run [k..<n] (filterJob c interval plan serversV) sv = (e, sv')
           \<and> trace sv' = trace_mem s'
           \<and> (e = None \<longrightarrow>
                fan_inv (map groups_mem serversM) n (mem s') (results_mem s') \<and> fan_rel s' sv')"
proof (induction d arbitrary: k s sv)
  case 0
  then have "k = n" by simp
  with 0 show ?case by (simp add: fan_rel_def)
next
  case (Suc d)
  then have k: "k < length serversM" using n by simp
  from filterJob_mem_sim [OF Suc.prems(3,4) k lenV Suc.prems(5), of c interval plan]
  obtain e s1 sv1 where j: "filterJob_mem c interval plan serversM k s = (e, s1)"
      "filterJob c interval plan serversV k sv = (e, sv1)" "trace sv1 = trace_mem s1"
    and ok: "e = None \<longrightarrow>
                fan_inv (map groups_mem serversM) (Suc k) (mem s1) (results_mem s1)
                \<and> fan_rel s1 sv1
                \<and> (\<forall>k'<length serversM. Suc k \<le> k' \<longrightarrow>
                      readServer (mem s1) (serversM ! k') = serversV ! k')"
    by blast
  from k n have upt: "[k..<n] = k # [Suc k..<n]" by (simp add: upt_conv_Cons)
  show ?case
  proof (cases e)
    case (Some err)
    with j show ?thesis by (simp add: upt)
  next
    case None
    from Suc.prems k n have "n - Suc k = d" "Suc k \<le> n" by simp_all
    from Suc.IH [OF this, of s1 sv1] ok None
    obtain e' s' sv' where
      "ForEachJob_run [Suc k..<n] (filterJob_mem c interval plan serversM) s1 = (e', s')"
      "ForEachJob_run [Suc k..<n] (filterJob c interval plan serversV) sv1 = (e', sv')"
      "trace sv' = trace_mem s'"
      "e' = None \<longrightarrow> fan_inv (map groups_mem serversM) n (mem s') (results_mem s') \<and> fan_rel s' sv'"
      by blast
    with j None show ?thesis by (simp add: upt)
  qed
qed

lemma sliceVal_nilSlice: "sliceVal m nilSlice = []"
  by (simp add: sliceVal_def nilSlice_def)

lemma fanOut_mem_sim:
  assumes sep: "separate m (map groups_mem serversM)"
  shows "\<exists>e s' sv'. fanOut_mem c ctx interval plan serversM tr m = (e, s')
           \<and> fanOut c ctx interval plan (map (readServer m) serversM) tr = (e, sv')
           \<and> trace sv' = trace_mem s'
           \<and> (e = None \<longrightarrow> separate (mem s') (results_mem s')
                \<and> results sv' = map (sliceVal (mem s')) (results_mem s'))"
proof -
  let ?n = "length serversM"
  let ?s0 = "\<lparr>trace_mem = tr, results_mem = replicate ?n nilSlice, count_mem = 0, mem = m\<rparr>"
  let ?sv0 = "\<lparr>trace = tr, results = replicate ?n [], count = 0\<rparr>"
  have rel0: "fan_rel ?s0 ?sv0"
    by (simp add: fan_rel_def sliceVal_nilSlice)
  have inv0: "fan_inv (map groups_mem serversM) 0 (mem ?s0) (results_mem ?s0)"
    using sep by (simp add: fan_inv_def separate_Nil nilSlice_def)
  show ?thesis
  proof (cases "?n = 0")
    case True
    then show ?thesis
      by (simp add: fanOut_mem_def fanOut_def ForEachJob_def separate_Nil)
  next
    case False
    show ?thesis
    proof (cases ctx)
      case (Some e)
      with False show ?thesis
        by (simp add: fanOut_mem_def fanOut_def ForEachJob_def)
    next
      case None
      have "\<exists>e s' sv'. ForEachJob_run [0..<?n] (filterJob_mem c interval plan serversM) ?s0 = (e, s')
           \<and> ForEachJob_run [0..<?n] (filterJob c interval plan (map (readServer m) serversM)) ?sv0 = (e, sv')
           \<and> trace sv' = trace_mem s'
           \<and> (e = None \<longrightarrow>
                fan_inv (map groups_mem serversM) ?n (mem s') (results_mem s') \<and> fan_rel s' sv')"
        by (rule ForEachJob_run_mem_sim [OF refl _ refl _ inv0 rel0]) simp_all
      then obtain e s' sv' where
        run: "ForEachJob_run [0..<?n] (filterJob_mem c interval plan serversM) ?s0 = (e, s')"
          "ForEachJob_run [0..<?n] (filterJob c interval plan (map (readServer m) serversM)) ?sv0 = (e, sv')"
          "trace sv' = trace_mem s'"
        and ok: "e = None \<longrightarrow>
                fan_inv (map groups_mem serversM) ?n (mem s') (results_mem s') \<and> fan_rel s' sv'"
        by blast
      have "separate (mem s') (results_mem s')
              \<and> results sv' = map (sliceVal (mem s')) (results_mem s')" if "e = None"
      proof -
        from ok that have "fan_inv (map groups_mem serversM) ?n (mem s') (results_mem s')"
          and "fan_rel s' sv'" by simp_all
        then have a: "length (results_mem s') = length (map groups_mem serversM)
            \<and> separate (mem s') (take ?n (results_mem s'))
            \<and> results sv' = map (sliceVal (mem s')) (results_mem s')"
          unfolding fan_inv_def fan_rel_def by blast
        then have "take ?n (results_mem s') = results_mem s'" by simp
        with a show ?thesis by metis
      qed
      with run None False show ?thesis
        by (simp add: fanOut_mem_def fanOut_def ForEachJob_def)
    qed
  qed
qed

text \<open>
  When the series slices of the blocks are separate, \<open>FilterChunks_mem\<close> records the
  effects and returns the result that \<open>FilterChunks\<close> does on the lists read from the
  memory.
\<close>

lemma FilterChunks_mem_separate:
  assumes "separate m (map series_mem blks)"
  shows "\<exists>m'. FilterChunks_mem grow c ctx tenant interval blks plan m =
           (fst (FilterChunks c ctx tenant interval (map (readBlock m) blks) plan),
            snd (FilterChunks c ctx tenant interval (map (readBlock m) blks) plan), m')"
proof (cases "blks = []")
  case True
  then show ?thesis by (simp add: FilterChunks_mem_def FilterChunks_def)
next
  case False
  from partitionLoop_mem_separate [of m "[]" blks Map.empty grow c "[]"] assms
  obtain tr r m1 where
    pm: "partitionLoop_mem grow c blks Map.empty [] [] m = (tr, r, m1)"
    and pv: "partitionLoop c (map (readBlock m) blks) Map.empty [] [] = (tr, map_sum id (map (readServer m1)) r)"
    and sep1: "\<forall>servers'. r = Inr servers' \<longrightarrow> separate m1 (map groups_mem servers')"
    by auto
  show ?thesis
  proof (cases r)
    case (Inl err)
    with False pm pv show ?thesis
      by (simp add: FilterChunks_mem_def FilterChunks_def)
  next
    case (Inr serversM)
    with sep1 have sep: "separate m1 (map groups_mem serversM)" by simp
    from fanOut_mem_sim [OF sep, of c ctx interval plan tr] obtain e s' sv' where
      fm: "fanOut_mem c ctx interval plan serversM tr m1 = (e, s')"
      and fv: "fanOut c ctx interval plan (map (readServer m1) serversM) tr = (e, sv')"
      and tr: "trace sv' = trace_mem s'"
      and ok: "e = None \<longrightarrow> separate (mem s') (results_mem s')
                \<and> results sv' = map (sliceVal (mem s')) (results_mem s')"
      by blast
    show ?thesis
    proof (cases e)
      case (Some err)
      with False pm pv Inr fm fv tr show ?thesis
        by (simp add: FilterChunks_mem_def FilterChunks_def)
    next
      case None
      with ok have "fst (mergeSeries_mem (mem s') (results_mem s') []) = mergeSeries (results sv') []"
        by (simp add: mergeSeries_mem_separate)
      then obtain m2 where "mergeSeries_mem (mem s') (results_mem s') []
                   = (mergeSeries (results sv') [], m2)"
        by (metis prod.collapse)
      with False pm pv Inr fm fv tr None show ?thesis
        by (simp add: FilterChunks_mem_def FilterChunks_def)
    qed
  qed
qed

subsection \<open>The shards of an address\<close>















text \<open>
  Claim C4 states that an error of the client lookup of a shard is contained like an
  error of the remote call. The source contains only the latter (lines 260 to 272, with
  the comment that a single gateway failure should not fail the query). When
  \<^verbatim>\<open>GetClientFor\<close> fails for the only candidate address, the callback is never
  invoked, \<open>doForAddrs\<close> returns the lookup's error (line 389), and
  \<^verbatim>\<open>ForEachJob\<close> and \<open>FilterChunks\<close> pass it on (line 284). Below, the first shard
  answers and no client can be obtained for the second: the call returns that error and
  no result. (Errors of the remote call alone never fail the call, which is
  \<open>FilterChunks_clients\<close>.)
\<close>

theorem FilterChunks_connection_error_fails_call:
  "snd (FilterChunks gatewayC None ''t'' intervalB blocksB ()) = Inl (Error ''dial failed'')"
  by (simp add: gatewayC_def gatewayB_def blocksB_def intervalB_def FilterChunks_eval)

end
